theory Spec2Isabelle
  imports Complex_Main
begin

section \<open>Text: whitespace trimming and the regular expressions of the noise markers\<close>

text \<open>
  Python strings are modelled as \<^typ>\<open>string\<close>; a character stands for the code point
  of the same number (the model covers the code points below 256).

  \<open>str.strip()\<close> without argument removes, from both ends, the characters for which
  \<open>str.isspace()\<close> holds. Below 256 these are the code points 9 to 13, 28 to 32,
  133 and 160.
\<close>

definition isspace :: "char \<Rightarrow> bool" where
  "isspace c = (of_char c \<in> {9, 10, 11, 12, 13, 28, 29, 30, 31, 32, 133, 160 :: nat})"

definition strip :: "string \<Rightarrow> string" where
  "strip s = rev (dropWhile isspace (rev (dropWhile isspace s)))"

text \<open>
  The fragment of Python's \<open>re\<close> syntax that the noise markers use, all compiled with
  \<open>re.MULTILINE\<close>: literal text, \<open>^\<close>, \<open>$\<close>, \<open>.+\<close>, \<open>\n+\<close>, a group of alternatives
  and concatenation.
\<close>

datatype atom = Ch char | Dot

datatype regex =
    Lit string
  | Plus atom
  | Bol
  | Eol
  | Alt regex regex
  | Seq regex regex

fun atom_ok :: "atom \<Rightarrow> char \<Rightarrow> bool" where
  "atom_ok (Ch c) x = (x = c)"
| "atom_ok Dot x = (x \<noteq> CHR ''\<newline>'')"

text \<open>
  \<open>ends r s i\<close> lists, in the order a backtracking matcher tries them, the positions
  at which a match of \<open>r\<close> that starts at position \<open>i\<close> of \<open>s\<close> can end.
  In multi-line mode \<open>^\<close> matches at the start of the string and right after a
  newline, \<open>$\<close> at the end of the string and right before a newline; \<open>.\<close> matches
  every character but the newline; \<open>+\<close> is greedy.
\<close>

fun ends :: "regex \<Rightarrow> string \<Rightarrow> nat \<Rightarrow> nat list" where
  "ends (Lit cs) s i = (if take (length cs) (drop i s) = cs then [i + length cs] else [])"
| "ends (Plus a) s i =
     map (\<lambda>k. i + k) (rev [1 ..< Suc (length (takeWhile (atom_ok a) (drop i s)))])"
| "ends Bol s i = (if i = 0 \<or> s ! (i - 1) = CHR ''\<newline>'' then [i] else [])"
| "ends Eol s i = (if i = length s \<or> s ! i = CHR ''\<newline>'' then [i] else [])"
| "ends (Alt r1 r2) s i = ends r1 s i @ ends r2 s i"
| "ends (Seq r1 r2) s i = concat (map (ends r2 s) (ends r1 s i))"

definition matches_at :: "regex \<Rightarrow> string \<Rightarrow> nat \<Rightarrow> bool" where
  "matches_at r s i = (ends r s i \<noteq> [])"

text \<open>
  \<open>pattern.search(text)\<close>: the start positions 0 to \<open>len(text)\<close> are tried from the
  left; the result is the start of the first match, or \<open>None\<close>.
\<close>

definition search :: "regex \<Rightarrow> string \<Rightarrow> nat option" where
  "search r s = find (matches_at r s) [0 ..< Suc (length s)]"

section \<open>scraping/extractor.py: noise stripping\<close>

definition RATE_LIMITED_MSG :: string where
  "RATE_LIMITED_MSG =
     ''[Rate limited] LinkedIn blocked this section. Try again later or request fewer sections.''"

definition NOISE_MARKERS :: "regex list" where
  "NOISE_MARKERS =
    [ Seq Bol (Seq (Lit ''About'') (Seq (Plus (Ch CHR ''\<newline>''))
        (Alt (Lit ''Accessibility'') (Lit ''Talent Solutions'')))),
      Seq Bol (Seq (Lit ''More profiles for you'') Eol),
      Seq Bol (Seq (Lit ''Explore premium profiles'') Eol),
      Seq Bol (Seq (Lit ''Get up to '') (Seq (Plus Dot)
        (Seq (Lit '' replies when you message with InMail'') Eol))) ]"

text \<open>The loop body of \<open>strip_linkedin_noise\<close>: one pattern, the running minimum.\<close>

definition noise_step :: "string \<Rightarrow> regex \<Rightarrow> nat \<Rightarrow> nat" where
  "noise_step text pattern earliest =
     (case search pattern text of
        Some start \<Rightarrow> if start < earliest then start else earliest
      | None \<Rightarrow> earliest)"

definition strip_linkedin_noise :: "string \<Rightarrow> string" where
  "strip_linkedin_noise text =
     strip (take (fold (noise_step text) NOISE_MARKERS (length text)) text)"

section \<open>The browser page, exceptions and effects\<close>

text \<open>
  The exceptions the extractor tells apart: \<open>LinkedInScraperException\<close> (with its
  subclasses, such as the rate-limit and authentication errors), Playwright's
  \<open>TimeoutError\<close>, and every other \<open>Exception\<close>. Each carries its message, \<open>str(e)\<close>.
\<close>

datatype exn =
    LinkedInScraperException string
  | PlaywrightTimeoutError string
  | OtherException string

fun str_exn :: "exn \<Rightarrow> string" where
  "str_exn (LinkedInScraperException m) = m"
| "str_exn (PlaywrightTimeoutError m) = m"
| "str_exn (OtherException m) = m"

text \<open>
  What the extractor asks of the page and of the event loop, in order: navigations,
  sleeps (in seconds) and the text typed into a field.
\<close>

datatype event = Goto string | Sleep real | Fill string

type_synonym session = "event list"

fun is_goto :: "event \<Rightarrow> bool" where
  "is_goto (Goto u) = True"
| "is_goto (Sleep d) = False"
| "is_goto (Fill t) = False"

definition navigations :: "session \<Rightarrow> nat" where
  "navigations tr = length (filter is_goto tr)"

text \<open>
  An awaited call either raises or returns, and extends the session.
\<close>

type_synonym 'a io = "session \<Rightarrow> (exn + 'a) \<times> session"

definition io_return :: "'a \<Rightarrow> 'a io" where
  "io_return x tr = (Inr x, tr)"

definition io_raise :: "exn \<Rightarrow> 'a io" where
  "io_raise e tr = (Inl e, tr)"

definition io_bind :: "'a io \<Rightarrow> ('a \<Rightarrow> 'b io) \<Rightarrow> 'b io" where
  "io_bind m f tr = (case m tr of (Inl e, tr') \<Rightarrow> (Inl e, tr') | (Inr x, tr') \<Rightarrow> f x tr')"

definition io_then :: "unit io \<Rightarrow> 'b io \<Rightarrow> 'b io" where
  "io_then m k = io_bind m (\<lambda>u. k)"

text \<open>\<open>try: m except ... as e: h e\<close>, where \<open>h\<close> re-raises what no clause catches.\<close>

definition io_catch :: "'a io \<Rightarrow> (exn \<Rightarrow> 'a io) \<Rightarrow> 'a io" where
  "io_catch m h tr = (case m tr of (Inl e, tr') \<Rightarrow> h e tr' | (Inr x, tr') \<Rightarrow> (Inr x, tr'))"

definition emit :: "event \<Rightarrow> unit io" where
  "emit ev tr = (Inr (), tr @ [ev])"

text \<open>The answer of the page to a call: an exception, or nothing worth a value.\<close>

definition may_raise :: "exn option \<Rightarrow> unit io" where
  "may_raise r = (case r of None \<Rightarrow> io_return () | Some e \<Rightarrow> io_raise e)"

text \<open>The answer of the page to a call that returns a value.\<close>

definition answer :: "exn + 'a \<Rightarrow> 'a io" where
  "answer r tr = (r, tr)"

definition sleep :: "real \<Rightarrow> unit io" where
  "sleep d = emit (Sleep d)"

text \<open>
  What the site does during one navigate-and-read sequence: the outcome of
  \<open>page.goto\<close>, of \<open>detect_rate_limit\<close>, of \<open>page.wait_for_selector\<close>, of
  \<open>handle_modal_close\<close>, of \<open>scroll_to_bottom\<close> and of the \<open>page.evaluate\<close> that reads
  the \<open>innerText\<close>. The site is a parameter: its answer may depend on the URL and
  on how many navigations the session has made before.
\<close>

record page_load =
  goto_raises :: "exn option"
  rate_limit_raises :: "exn option"
  wait_raises :: "exn option"
  modal_close_raises :: "exn option"
  scroll_raises :: "exn option"
  inner_text :: "exn + string"

type_synonym site = "nat \<Rightarrow> string \<Rightarrow> page_load"

section \<open>scraping/extractor.py: page extraction\<close>

definition NAV_DELAY :: real where
  "NAV_DELAY = 2.0"

definition RATE_LIMIT_RETRY_DELAY :: real where
  "RATE_LIMIT_RETRY_DELAY = 5.0"

text \<open>\<open>except PlaywrightTimeoutError: logger.debug(...)\<close> around the selector wait.\<close>

fun ignore_timeout :: "exn \<Rightarrow> unit io" where
  "ignore_timeout (PlaywrightTimeoutError m) = io_return ()"
| "ignore_timeout e = io_raise e"

text \<open>
  The end of both \<open>_extract_page_once\<close> and \<open>_extract_overlay_once\<close>: from the raw
  \<open>innerText\<close> to the value returned.
\<close>

definition classify_raw :: "string \<Rightarrow> string" where
  "classify_raw raw =
     (if raw = [] then []
      else let cleaned = strip_linkedin_noise raw in
        if cleaned = [] \<and> strip raw \<noteq> [] then RATE_LIMITED_MSG
        else cleaned)"

text \<open>\<open>_extract_page_once\<close> (the leading underscore is dropped).\<close>

definition extract_page_once :: "site \<Rightarrow> string \<Rightarrow> string io" where
  "extract_page_once st url tr =
     (let load = st (navigations tr) url in
      io_then (emit (Goto url))
     (io_then (may_raise (goto_raises load))
     (io_then (may_raise (rate_limit_raises load))
     (io_then (io_catch (may_raise (wait_raises load)) ignore_timeout)
     (io_then (may_raise (modal_close_raises load))
     (io_then (may_raise (scroll_raises load))
     (io_bind (answer (inner_text load)) (\<lambda>raw.
      io_return (classify_raw raw)))))))) tr)"

text \<open>
  The two \<open>except\<close> clauses of \<open>extract_page\<close> and \<open>_extract_overlay\<close>:
  \<open>except LinkedInScraperException: raise\<close>, then \<open>except Exception: return ""\<close>.
\<close>

fun isolate_errors :: "exn \<Rightarrow> string io" where
  "isolate_errors (LinkedInScraperException m) = io_raise (LinkedInScraperException m)"
| "isolate_errors e = io_return []"

definition extract_page :: "site \<Rightarrow> string \<Rightarrow> string io" where
  "extract_page st url =
     io_catch
       (io_bind (extract_page_once st url) (\<lambda>result.
          if result \<noteq> RATE_LIMITED_MSG then io_return result
          else io_then (sleep RATE_LIMIT_RETRY_DELAY) (extract_page_once st url)))
       isolate_errors"

text \<open>\<open>_extract_overlay_once\<close>: no modal is closed and nothing is scrolled.\<close>

definition extract_overlay_once :: "site \<Rightarrow> string \<Rightarrow> string io" where
  "extract_overlay_once st url tr =
     (let load = st (navigations tr) url in
      io_then (emit (Goto url))
     (io_then (may_raise (goto_raises load))
     (io_then (may_raise (rate_limit_raises load))
     (io_then (io_catch (may_raise (wait_raises load)) ignore_timeout)
     (io_bind (answer (inner_text load)) (\<lambda>raw.
      io_return (classify_raw raw)))))) tr)"

definition extract_overlay :: "site \<Rightarrow> string \<Rightarrow> string io" where
  "extract_overlay st url =
     io_catch
       (io_bind (extract_overlay_once st url) (\<lambda>result.
          if result \<noteq> RATE_LIMITED_MSG then io_return result
          else io_then (sleep RATE_LIMIT_RETRY_DELAY) (extract_overlay_once st url)))
       isolate_errors"

text \<open>\<open>isinstance(e, LinkedInScraperException)\<close>.\<close>

fun is_scraper_exception :: "exn \<Rightarrow> bool" where
  "is_scraper_exception (LinkedInScraperException m) = True"
| "is_scraper_exception e = False"

text \<open>The selector wait lets the attempt go on: it returned, or it timed out.\<close>

fun wait_passes :: "exn option \<Rightarrow> bool" where
  "wait_passes None = True"
| "wait_passes (Some (PlaywrightTimeoutError m)) = True"
| "wait_passes (Some e) = False"

text \<open>No step of the page attempt raises, and the page's text is read.\<close>

definition reads :: "page_load \<Rightarrow> string \<Rightarrow> bool" where
  "reads load raw =
     (goto_raises load = None \<and> rate_limit_raises load = None \<and> wait_passes (wait_raises load)
      \<and> modal_close_raises load = None \<and> scroll_raises load = None
      \<and> inner_text load = Inr raw)"

section \<open>scraping/fields.py: section flags\<close>

text \<open>
  Modelled from the spec: \<open>scraping/fields.py\<close> is not among the sources. The spec
  describes the section flags as "a bitmask-like set of named boolean fields (per
  person/company) selecting which sub-pages to visit". The members are those that
  \<open>extractor.py\<close> names. A flags value is the set of members that are on: \<open>|=\<close> is
  union, \<open>flag & fields\<close> is true when the member is in the set, and iterating over
  the class yields the members in the order listed here. The dictionaries
  \<open>PERSON_SECTION_MAP\<close> and \<open>COMPANY_SECTION_MAP\<close> of the same file, from section
  names to members, are parameters of the functions that read them.
\<close>

datatype PersonScrapingFields =
  BASIC_INFO | EXPERIENCE | EDUCATION | INTERESTS | HONORS | LANGUAGES | CONTACT_INFO

datatype CompanyScrapingFields = ABOUT | POSTS | JOBS

definition person_members :: "PersonScrapingFields list" where
  "person_members = [BASIC_INFO, EXPERIENCE, EDUCATION, INTERESTS, HONORS, LANGUAGES, CONTACT_INFO]"

definition company_members :: "CompanyScrapingFields list" where
  "company_members = [ABOUT, POSTS, JOBS]"

section \<open>scraping/extractor.py: scraping a profile\<close>

record scrape_result =
  url :: string
  sections :: "string \<rightharpoonup> string"
  pages_visited :: "string list"
  sections_requested :: "string list"

text \<open>
  The body of the \<open>try\<close> statement in the loops of \<open>scrape_person\<close> and
  \<open>scrape_company\<close>, with its two \<open>except\<close> clauses: the section is stored when the
  text is not empty, and the URL is recorded as visited in both cases and also after
  an exception that is not a scraper exception.
\<close>

definition scrape_section ::
  "string io \<Rightarrow> string \<Rightarrow> string \<Rightarrow> (string \<rightharpoonup> string) \<Rightarrow> string list \<Rightarrow>
   ((string \<rightharpoonup> string) \<times> string list) io" where
  "scrape_section extract section_name page_url secs visited =
     io_catch
       (io_bind extract (\<lambda>text.
          io_return (if text \<noteq> [] then secs(section_name \<mapsto> text) else secs,
                     visited @ [page_url])))
       (\<lambda>e. if is_scraper_exception e then io_raise e
            else io_return (secs, visited @ [page_url]))"

definition person_page_map :: "(PersonScrapingFields \<times> string \<times> string \<times> bool) list" where
  "person_page_map =
    [ (BASIC_INFO, ''main_profile'', ''/'', False),
      (EXPERIENCE, ''experience'', ''/details/experience/'', False),
      (EDUCATION, ''education'', ''/details/education/'', False),
      (INTERESTS, ''interests'', ''/details/interests/'', False),
      (HONORS, ''honors'', ''/details/honors/'', False),
      (LANGUAGES, ''languages'', ''/details/languages/'', False),
      (CONTACT_INFO, ''contact_info'', ''/overlay/contact-info/'', True) ]"

text \<open>The \<open>for\<close> loop of \<open>scrape_person\<close> over the page map.\<close>

fun person_pages ::
  "site \<Rightarrow> string \<Rightarrow> PersonScrapingFields set \<Rightarrow>
   (PersonScrapingFields \<times> string \<times> string \<times> bool) list \<Rightarrow>
   (string \<rightharpoonup> string) \<Rightarrow> string list \<Rightarrow> ((string \<rightharpoonup> string) \<times> string list) io" where
  "person_pages st base_url flds [] secs visited = io_return (secs, visited)"
| "person_pages st base_url flds ((flag, section_name, suffix, is_overlay) # rest) secs visited =
     (if flag \<notin> flds then person_pages st base_url flds rest secs visited
      else
        io_bind
          (scrape_section
             (if is_overlay then extract_overlay st (base_url @ suffix)
              else extract_page st (base_url @ suffix))
             section_name (base_url @ suffix) secs visited)
          (\<lambda>acc. io_then (sleep NAV_DELAY)
             (person_pages st base_url flds rest (fst acc) (snd acc))))"

text \<open>
  \<open>reverse_map = {v: k for k, v in SECTION_MAP.items()}\<close>: of two names for one flag
  the later one stays.
\<close>

definition reverse_map :: "(string \<times> 'f) list \<Rightarrow> 'f \<rightharpoonup> string" where
  "reverse_map items = map_of (rev (map (\<lambda>(k, v). (v, k)) items))"

text \<open>The names appended to \<open>requested\<close>, in the order of the members of the class.\<close>

definition requested_names :: "(string \<times> 'f) list \<Rightarrow> 'f list \<Rightarrow> 'f set \<Rightarrow> string list" where
  "requested_names items members flds =
     List.map_filter (\<lambda>flag. if flag \<in> flds then reverse_map items flag else None) members"

definition scrape_person ::
  "site \<Rightarrow> (string \<times> PersonScrapingFields) list \<Rightarrow> string \<Rightarrow> PersonScrapingFields set \<Rightarrow>
   scrape_result io" where
  "scrape_person st PERSON_SECTION_MAP username flds0 =
     (let flds = flds0 \<union> {BASIC_INFO};
          base_url = ''https://www.linkedin.com/in/'' @ username
      in io_bind (person_pages st base_url flds person_page_map Map.empty []) (\<lambda>acc.
           io_return
             \<lparr>url = base_url @ ''/'',
              sections = fst acc,
              pages_visited = snd acc,
              sections_requested =
                ''main_profile'' # requested_names PERSON_SECTION_MAP person_members flds\<rparr>))"

definition company_page_map :: "(CompanyScrapingFields \<times> string \<times> string) list" where
  "company_page_map =
    [ (ABOUT, ''about'', ''/about/''),
      (POSTS, ''posts'', ''/posts/''),
      (JOBS, ''jobs'', ''/jobs/'') ]"

fun company_pages ::
  "site \<Rightarrow> string \<Rightarrow> CompanyScrapingFields set \<Rightarrow>
   (CompanyScrapingFields \<times> string \<times> string) list \<Rightarrow>
   (string \<rightharpoonup> string) \<Rightarrow> string list \<Rightarrow> ((string \<rightharpoonup> string) \<times> string list) io" where
  "company_pages st base_url flds [] secs visited = io_return (secs, visited)"
| "company_pages st base_url flds ((flag, section_name, suffix) # rest) secs visited =
     (if flag \<notin> flds then company_pages st base_url flds rest secs visited
      else
        io_bind
          (scrape_section (extract_page st (base_url @ suffix))
             section_name (base_url @ suffix) secs visited)
          (\<lambda>acc. io_then (sleep NAV_DELAY)
             (company_pages st base_url flds rest (fst acc) (snd acc))))"

definition scrape_company ::
  "site \<Rightarrow> (string \<times> CompanyScrapingFields) list \<Rightarrow> string \<Rightarrow> CompanyScrapingFields set \<Rightarrow>
   scrape_result io" where
  "scrape_company st COMPANY_SECTION_MAP company_name flds0 =
     (let flds = flds0 \<union> {ABOUT};
          base_url = ''https://www.linkedin.com/company/'' @ company_name
      in io_bind (company_pages st base_url flds company_page_map Map.empty []) (\<lambda>acc.
           io_return
             \<lparr>url = base_url @ ''/'',
              sections = fst acc,
              pages_visited = snd acc,
              sections_requested =
                ''about'' # requested_names COMPANY_SECTION_MAP company_members flds\<rparr>))"

text \<open>
  A computation only appends to the session, and every event it appends satisfies
  \<open>P\<close>.
\<close>

definition appends :: "'a io \<Rightarrow> (event \<Rightarrow> bool) \<Rightarrow> bool" where
  "appends m P = (\<forall>tr. \<exists>more. snd (m tr) = tr @ more \<and> list_all P more)"

text \<open>No constraint on the events.\<close>

definition any_event :: "event \<Rightarrow> bool" where
  "any_event ev = True"

section \<open>scraping/extractor.py: action methods\<close>

record action_result =
  status :: string
  message :: string
  profile_url :: string

text \<open>
  The dictionary that the in-page script of \<open>connect_with_person\<close> returns: its
  \<open>type\<close> entry, and its printed form (which ends up in a debug message).
\<close>

record dialog_state =
  dialog_type :: string
  dialog_repr :: string

text \<open>
  What the page does during one call of \<open>connect_with_person\<close>, one outcome for each
  place where the method calls the page: \<open>goto\<close>, \<open>detect_rate_limit\<close>, the script
  that inspects the dialog, the click on "Add a note", the wait for the text area, its
  \<open>fill\<close>, the click on "Send invitation", the two clicks on "Send without a note"
  (as a fallback and when there is no note) and the check that the modal has closed.
\<close>

record connect_page =
  c_goto_raises :: "exn option"
  c_rate_limit_raises :: "exn option"
  c_dialog_state :: "exn + dialog_state"
  c_add_note_clicked :: "exn + bool"
  c_textarea_wait_raises :: "exn option"
  c_fill_raises :: "exn option"
  c_send_clicked :: "exn + bool"
  c_send_without_fallback :: "exn + bool"
  c_send_without :: "exn + bool"
  c_modal_closed :: "exn + bool"

text \<open>\<open>if note:\<close> for a \<open>str | None\<close>.\<close>

fun truthy :: "string option \<Rightarrow> bool" where
  "truthy None = False"
| "truthy (Some s) = (s \<noteq> [])"

text \<open>The end of the \<open>invite_modal\<close> branch, from the comment "Wait and verify" on.\<close>

definition connect_verify ::
  "connect_page \<Rightarrow> string \<Rightarrow> string option \<Rightarrow> string \<Rightarrow> action_result io" where
  "connect_verify pg linkedin_username note purl =
     io_then (sleep 2)
    (io_bind (answer (c_modal_closed pg)) (\<lambda>modal_closed.
       if modal_closed then
         io_return
           \<lparr>status = ''success'',
            message = ''Connection request sent to '' @ linkedin_username @
                      (if truthy note then '' with note'' else ''''),
            profile_url = purl\<rparr>
       else
         io_return
           \<lparr>status = ''partial'',
            message = ''Modal may still be visible for '' @ linkedin_username,
            profile_url = purl\<rparr>))"

text \<open>
  The inner \<open>try\<close> statement, around the text area: its value is \<open>Some r\<close> when the
  \<open>except\<close> clause returns \<open>r\<close> from the method, \<open>None\<close> when control goes on.
\<close>

definition connect_fill_note ::
  "connect_page \<Rightarrow> string \<Rightarrow> string \<Rightarrow> string \<Rightarrow> action_result option io" where
  "connect_fill_note pg linkedin_username note purl =
     io_catch
       (io_then (may_raise (c_textarea_wait_raises pg))
       (io_then (emit (Fill (take 200 note)))
       (io_then (may_raise (c_fill_raises pg))
       (io_then (sleep 0.5)
       (io_bind (answer (c_send_clicked pg)) (\<lambda>send_clicked.
        io_return None))))))
       (\<lambda>e. io_return (Some
           \<lparr>status = ''error'',
            message = ''Error filling note: '' @ str_exn e,
            profile_url = purl\<rparr>))"

text \<open>The \<open>invite_modal\<close> branch.\<close>

definition connect_invite ::
  "connect_page \<Rightarrow> string \<Rightarrow> string option \<Rightarrow> string \<Rightarrow> action_result io" where
  "connect_invite pg linkedin_username note purl =
     (if truthy note then
        io_bind (answer (c_add_note_clicked pg)) (\<lambda>add_note_clicked.
          if add_note_clicked then
            io_then (sleep 2)
           (io_bind (connect_fill_note pg linkedin_username (the note) purl) (\<lambda>returned.
              case returned of
                Some r \<Rightarrow> io_return r
              | None \<Rightarrow> connect_verify pg linkedin_username note purl))
          else
            io_bind (answer (c_send_without_fallback pg)) (\<lambda>clicked.
              connect_verify pg linkedin_username note purl))
      else
        io_bind (answer (c_send_without pg)) (\<lambda>send_clicked.
          connect_verify pg linkedin_username note purl))"

definition connect_with_person ::
  "connect_page \<Rightarrow> string \<Rightarrow> string option \<Rightarrow> action_result io" where
  "connect_with_person pg linkedin_username note =
     (let purl = ''https://www.linkedin.com/in/'' @ linkedin_username @ ''/'';
          invite_url = ''https://www.linkedin.com/preload/custom-invite/?vanityName='' @
                       linkedin_username
      in io_catch
          (io_then (emit (Goto invite_url))
          (io_then (may_raise (c_goto_raises pg))
          (io_then (may_raise (c_rate_limit_raises pg))
          (io_then (sleep 2)
          (io_bind (answer (c_dialog_state pg)) (\<lambda>ds.
             if dialog_type ds = ''already_connected'' then
               io_return
                 \<lparr>status = ''already_connected'',
                  message = ''Already connected with '' @ linkedin_username,
                  profile_url = purl\<rparr>
             else if dialog_type ds \<in> {''pending'', ''pending_on_page''} then
               io_return
                 \<lparr>status = ''pending'',
                  message = ''Connection request already pending for '' @ linkedin_username,
                  profile_url = purl\<rparr>
             else if dialog_type ds = ''invite_modal'' then
               connect_invite pg linkedin_username note purl
             else
               io_return
                 \<lparr>status = ''error'',
                  message = ''Could not determine invite modal state for '' @ linkedin_username @
                            ''. Debug: '' @ dialog_repr ds,
                  profile_url = purl\<rparr>))))))
          (\<lambda>e. io_return
             \<lparr>status = ''error'',
              message = ''Error connecting with '' @ linkedin_username @ '': '' @ str_exn e,
              profile_url = purl\<rparr>))"




text \<open>
  The events that a call of \<open>connect_with_person\<close> with the note \<open>nt\<close> may add to the
  session: a text typed into a field is the first 200 characters of the note.
\<close>

definition note_fill :: "string option \<Rightarrow> event \<Rightarrow> bool" where
  "note_fill nt ev = (case ev of Fill t \<Rightarrow> (case nt of Some n \<Rightarrow> t = take 200 n | None \<Rightarrow> False) | Goto u \<Rightarrow> True | Sleep d \<Rightarrow> True)"

section \<open>Example sites\<close>

text \<open>Pages used to run the definitions on concrete inputs.\<close>

definition quiet_page :: "string \<Rightarrow> page_load" where
  "quiet_page raw =
     \<lparr>goto_raises = None, rate_limit_raises = None, wait_raises = None,
      modal_close_raises = None, scroll_raises = None, inner_text = Inr raw\<rparr>"

definition blocked_page :: "exn \<Rightarrow> page_load" where
  "blocked_page e =
     \<lparr>goto_raises = None, rate_limit_raises = Some e, wait_raises = None,
      modal_close_raises = None, scroll_raises = None, inner_text = Inr []\<rparr>"

definition chrome_then_content :: site where
  "chrome_then_content n u =
     (if n = 0 then quiet_page ''More profiles for you'' else quiet_page ''Hello'')"

definition invite_modal_page :: connect_page where
  "invite_modal_page =
     \<lparr>c_goto_raises = None, c_rate_limit_raises = None,
      c_dialog_state = Inr \<lparr>dialog_type = ''invite_modal'', dialog_repr = ''{}''\<rparr>,
      c_add_note_clicked = Inr True, c_textarea_wait_raises = None, c_fill_raises = None,
      c_send_clicked = Inr True, c_send_without_fallback = Inr True,
      c_send_without = Inr True, c_modal_closed = Inr True\<rparr>"


text \<open>A site on which only the main profile page of \<open>bob\<close> has any text.\<close>

definition profile_site :: site where
  "profile_site n u =
     quiet_page (if u = ''https://www.linkedin.com/in/bob/'' then ''Hello'' else [])"

definition example_person_section_map :: "(string \<times> PersonScrapingFields) list" where
  "example_person_section_map =
    [ (''experience'', EXPERIENCE), (''education'', EDUCATION), (''interests'', INTERESTS),
      (''honors'', HONORS), (''languages'', LANGUAGES), (''contact_info'', CONTACT_INFO) ]"

section \<open>Properties of the noise stripping\<close>

subsection \<open>Searching and the running minimum\<close>

lemma search_Some_iff:
  "search r s = Some m \<longleftrightarrow> m \<le> length s \<and> matches_at r s m \<and> (\<forall>j<m. \<not> matches_at r s j)"
  unfolding search_def find_Some_iff
  by (auto simp: less_Suc_eq_le simp del: upt_Suc)

lemma search_None_iff:
  "search r s = None \<longleftrightarrow> (\<forall>i\<le>length s. \<not> matches_at r s i)"
  unfolding search_def find_None_iff
  by (auto simp: less_Suc_eq_le simp del: upt_Suc)

lemma fold_noise_step:
  "fold (noise_step text) ps n = Min (insert n {m. \<exists>p\<in>set ps. search p text = Some m})"
proof (induction ps arbitrary: n)
  case Nil
  show ?case by simp
next
  case (Cons p ps)
  let ?S = "{m. \<exists>q\<in>set ps. search q text = Some m}"
  have "?S \<subseteq> (\<lambda>q. the (search q text)) ` set ps" by force
  then have fin: "finite ?S" by (rule finite_subset) simp
  show ?case
  proof (cases "search p text")
    case None
    then have "{m. \<exists>q\<in>set (p # ps). search q text = Some m} = ?S" by auto
    moreover have "noise_step text p n = n" using None by (simp add: noise_step_def)
    ultimately show ?thesis using Cons.IH [of n] by simp
  next
    case (Some a)
    then have eq: "{m. \<exists>q\<in>set (p # ps). search q text = Some m} = insert a ?S" by auto
    have "noise_step text p n = min a n"
      using Some by (simp add: noise_step_def min_def)
    then have "fold (noise_step text) (p # ps) n = Min (insert (min a n) ?S)"
      using Cons.IH [of "min a n"] by simp
    also have "\<dots> = Min (insert n (insert a ?S))"
    proof (cases "?S = {}")
      case True
      then show ?thesis by (simp add: min.commute)
    next
      case False
      then show ?thesis using fin by (simp add: min.commute min.left_commute min.assoc)
    qed
    finally show ?thesis using eq by simp
  qed
qed

lemma strip_idem: "strip (strip s) = strip s"
proof -
  define t where "t = dropWhile isspace s"
  define u where "u = dropWhile isspace (rev t)"
  have s: "strip s = rev u" by (simp add: strip_def t_def u_def)
  show ?thesis
  proof (cases "u = []")
    case True
    with s have e: "strip s = []" by simp
    have "strip [] = []" by (simp add: strip_def)
    with e show ?thesis by simp
  next
    case False
    then have hu: "\<not> isspace (hd u)" unfolding u_def by (rule hd_dropWhile)
    have "rev t = takeWhile isspace (rev t) @ u" by (simp add: u_def)
    with False have "last u = last (rev t)" by (metis last_appendR)
    moreover from False have "t \<noteq> []" by (auto simp: u_def)
    ultimately have "last u = hd t" by (simp add: last_rev)
    moreover have "\<not> isspace (hd t)" using \<open>t \<noteq> []\<close> unfolding t_def by (rule hd_dropWhile)
    ultimately have "\<not> isspace (hd (rev u))" using False by (simp add: hd_rev)
    then have "dropWhile isspace (rev u) = rev u" by (simp add: dropWhile_eq_self_iff)
    moreover have "dropWhile isspace u = u" using hu by (simp add: dropWhile_eq_self_iff)
    ultimately show ?thesis using s by (simp add: strip_def)
  qed
qed

lemma length_strip_le: "length (strip s) \<le> length s"
  unfolding strip_def
  by (metis length_dropWhile_le length_rev le_trans)

lemma no_match_at_end:
  "p \<in> set NOISE_MARKERS \<Longrightarrow> \<not> matches_at p s (length s)"
  by (auto simp: NOISE_MARKERS_def matches_at_def)

lemma finite_match_starts:
  "finite {i. i \<le> length text \<and> (\<exists>p\<in>set ps. matches_at p text i)}"
  by (rule finite_subset [of _ "{..length text}"]) auto

lemma earliest_eq_Min:
  assumes "\<exists>p\<in>set ps. \<exists>i\<le>length text. matches_at p text i"
  shows "fold (noise_step text) ps (length text) =
         Min {i. i \<le> length text \<and> (\<exists>p\<in>set ps. matches_at p text i)}"
proof -
  let ?M = "{i. i \<le> length text \<and> (\<exists>p\<in>set ps. matches_at p text i)}"
  let ?S = "{m. \<exists>p\<in>set ps. search p text = Some m}"
  have finM: "finite ?M" by (rule finite_match_starts)
  have neM: "?M \<noteq> {}" using assms by auto
  have sub: "?S \<subseteq> ?M" by (auto simp: search_Some_iff)
  then have finS: "finite ?S" using finM by (rule finite_subset)
  have "Min ?M \<in> ?M" using finM neM by (rule Min_in)
  then obtain p where p: "p \<in> set ps" "matches_at p text (Min ?M)" "Min ?M \<le> length text"
    by auto
  then have "search p text \<noteq> None" by (auto simp: search_None_iff)
  then obtain m where m: "search p text = Some m" by auto
  then have mS: "m \<in> ?S" using p(1) by auto
  then have "m \<in> ?M" using sub by auto
  with finM have "Min ?M \<le> m" by (rule Min_le)
  moreover have "m \<le> Min ?M"
    using m p(2) unfolding search_Some_iff by (meson not_le)
  ultimately have mm: "m = Min ?M" by simp
  have "Min (insert (length text) ?S) = Min ?M"
  proof (rule Min_eqI)
    show "finite (insert (length text) ?S)" using finS by simp
    show "Min ?M \<in> insert (length text) ?S" using mS mm by simp
  next
    fix y assume "y \<in> insert (length text) ?S"
    then have "y = length text \<or> y \<in> ?M" using sub by auto
    then show "Min ?M \<le> y"
    proof
      assume "y = length text"
      then show ?thesis using p(3) by simp
    next
      assume "y \<in> ?M"
      with finM show ?thesis by (rule Min_le)
    qed
  qed
  then show ?thesis by (simp add: fold_noise_step)
qed

lemma earliest_no_match:
  assumes "\<forall>p\<in>set ps. \<forall>i\<le>length text. \<not> matches_at p text i"
  shows "fold (noise_step text) ps (length text) = length text"
proof -
  have "{m. \<exists>p\<in>set ps. search p text = Some m} = {}"
    using assms by (auto simp: search_Some_iff)
  then show ?thesis by (simp add: fold_noise_step)
qed

lemma earliest_le_search:
  assumes "p \<in> set ps" "search p text = Some m"
  shows "fold (noise_step text) ps (length text) \<le> m"
  unfolding fold_noise_step
proof (rule Min_le)
  have "{m. \<exists>p\<in>set ps. search p text = Some m} \<subseteq> {..length text}"
    by (auto simp: search_Some_iff)
  then show "finite (insert (length text) {m. \<exists>p\<in>set ps. search p text = Some m})"
    by (simp add: finite_subset)
  show "m \<in> insert (length text) {m. \<exists>p\<in>set ps. search p text = Some m}"
    using assms by auto
qed

lemma strip_linkedin_noise_stripped:
  "strip (strip_linkedin_noise text) = strip_linkedin_noise text"
  by (simp add: strip_linkedin_noise_def strip_idem)

lemma search_lt_length:
  assumes "p \<in> set NOISE_MARKERS" "search p s = Some m"
  shows "m < length s"
proof -
  from assms(2) have "m \<le> length s" "matches_at p s m" by (simp_all add: search_Some_iff)
  moreover have "\<not> matches_at p s (length s)" using assms(1) by (rule no_match_at_end)
  ultimately show ?thesis by (cases "m = length s") auto
qed

subsection \<open>Truncation at the earliest marker\<close>

text \<open>
  Claim C1, as the code has it: when at least one noise marker matches somewhere in
  the text, \<open>strip_linkedin_noise\<close> returns the prefix of the text that ends at the
  least start position of a match of any marker, with the white space at both ends of
  that prefix removed.
\<close>

theorem strip_linkedin_noise_earliest:
  assumes "\<exists>p\<in>set NOISE_MARKERS. \<exists>i\<le>length text. matches_at p text i"
  shows "strip_linkedin_noise text =
         strip (take (Min {i. i \<le> length text \<and> (\<exists>p\<in>set NOISE_MARKERS. matches_at p text i)}) text)"
  using earliest_eq_Min [OF assms] by (simp add: strip_linkedin_noise_def)

theorem strip_linkedin_noise_earliest_witness:
  "(\<exists>p\<in>set NOISE_MARKERS. \<exists>i\<le>length ''Hi\<newline>More profiles for you''.
       matches_at p ''Hi\<newline>More profiles for you'' i)
   \<and> strip (take (Min {i. i \<le> length ''Hi\<newline>More profiles for you'' \<and>
                 (\<exists>p\<in>set NOISE_MARKERS. matches_at p ''Hi\<newline>More profiles for you'' i)})
       ''Hi\<newline>More profiles for you'') = ''Hi''"
proof -
  let ?t = "''Hi\<newline>More profiles for you''"
  have "search (NOISE_MARKERS ! 1) ?t = Some 3" by code_simp
  then have "matches_at (NOISE_MARKERS ! 1) ?t 3 \<and> 3 \<le> length ?t"
    by (simp add: search_Some_iff)
  moreover have "NOISE_MARKERS ! 1 \<in> set NOISE_MARKERS" by (simp add: NOISE_MARKERS_def)
  ultimately have ex: "\<exists>p\<in>set NOISE_MARKERS. \<exists>i\<le>length ?t. matches_at p ?t i" by blast
  have "strip_linkedin_noise ?t = ''Hi''" by code_simp
  with strip_linkedin_noise_earliest [OF ex] ex show ?thesis by simp
qed

text \<open>
  The prefix itself is not what is returned: a marker that does not start the text
  starts a line, so the prefix before it ends with a newline, which the final
  \<open>strip()\<close> removes.
\<close>

theorem strip_linkedin_noise_prefix_counterexample:
  "(\<exists>p\<in>set NOISE_MARKERS. \<exists>i\<le>length ''Hi\<newline>More profiles for you''.
       matches_at p ''Hi\<newline>More profiles for you'' i)
   \<and> strip_linkedin_noise ''Hi\<newline>More profiles for you'' \<noteq>
     take (Min {i. i \<le> length ''Hi\<newline>More profiles for you'' \<and>
                 (\<exists>p\<in>set NOISE_MARKERS. matches_at p ''Hi\<newline>More profiles for you'' i)})
       ''Hi\<newline>More profiles for you''"
proof -
  let ?t = "''Hi\<newline>More profiles for you''"
  have "search (NOISE_MARKERS ! 1) ?t = Some 3" by code_simp
  then have "matches_at (NOISE_MARKERS ! 1) ?t 3 \<and> 3 \<le> length ?t"
    by (simp add: search_Some_iff)
  moreover have "NOISE_MARKERS ! 1 \<in> set NOISE_MARKERS" by (simp add: NOISE_MARKERS_def)
  ultimately have ex: "\<exists>p\<in>set NOISE_MARKERS. \<exists>i\<le>length ?t. matches_at p ?t i" by blast
  have "fold (noise_step ?t) NOISE_MARKERS (length ?t) = 3" by code_simp
  with earliest_eq_Min [OF ex]
  have m: "Min {i. i \<le> length ?t \<and> (\<exists>p\<in>set NOISE_MARKERS. matches_at p ?t i)} = 3" by simp
  have "strip_linkedin_noise ?t = ''Hi''" by code_simp
  then have "strip_linkedin_noise ?t \<noteq> take 3 ?t" by simp
  with ex m show ?thesis by simp
qed

text \<open>
  Claim C5: when no noise marker matches anywhere in the text, \<open>strip_linkedin_noise\<close>
  returns the text with the white space at both ends removed and nothing else changed.
\<close>

theorem strip_linkedin_noise_no_marker:
  assumes "\<forall>p\<in>set NOISE_MARKERS. \<forall>i\<le>length text. \<not> matches_at p text i"
  shows "strip_linkedin_noise text = strip text"
  using earliest_no_match [OF assms] by (simp add: strip_linkedin_noise_def)

theorem strip_linkedin_noise_no_marker_witness:
  "list_all (\<lambda>p. search p '' Hello world '' = None) NOISE_MARKERS
   \<and> strip_linkedin_noise '' Hello world '' = ''Hello world''"
proof -
  have n: "list_all (\<lambda>p. search p '' Hello world '' = None) NOISE_MARKERS"
    by code_simp
  then have h: "\<forall>p\<in>set NOISE_MARKERS. \<forall>i\<le>length '' Hello world ''.
      \<not> matches_at p '' Hello world '' i"
    by (simp only: list_all_iff search_None_iff)
  have "strip '' Hello world '' = ''Hello world''" by code_simp
  with strip_linkedin_noise_no_marker [OF h] n show ?thesis by simp
qed

subsection \<open>Stripping twice\<close>

text \<open>
  Claim C9, as the code has it: a second application of \<open>strip_linkedin_noise\<close>
  leaves the output of the first unchanged exactly when that output contains no match
  of a noise marker. (The trimming of the first pass can turn a line that was not a
  marker, because of a blank next to it, into one that is.)
\<close>

theorem strip_linkedin_noise_twice:
  "strip_linkedin_noise (strip_linkedin_noise text) = strip_linkedin_noise text \<longleftrightarrow>
   (\<forall>p\<in>set NOISE_MARKERS. \<forall>i\<le>length (strip_linkedin_noise text).
      \<not> matches_at p (strip_linkedin_noise text) i)"
proof
  let ?out = "strip_linkedin_noise text"
  assume fp: "strip_linkedin_noise ?out = ?out"
  show "\<forall>p\<in>set NOISE_MARKERS. \<forall>i\<le>length ?out. \<not> matches_at p ?out i"
  proof (rule ccontr)
    assume "\<not> ?thesis"
    then obtain p i where p: "p \<in> set NOISE_MARKERS" "i \<le> length ?out" "matches_at p ?out i"
      by auto
    then have "search p ?out \<noteq> None" by (auto simp: search_None_iff)
    then obtain m where m: "search p ?out = Some m" by auto
    have "length (strip_linkedin_noise ?out) \<le>
          length (take (fold (noise_step ?out) NOISE_MARKERS (length ?out)) ?out)"
      unfolding strip_linkedin_noise_def [of ?out] by (rule length_strip_le)
    also have "\<dots> \<le> fold (noise_step ?out) NOISE_MARKERS (length ?out)" by simp
    also have "\<dots> \<le> m" using p(1) m by (rule earliest_le_search)
    also have "m < length ?out" using p(1) m by (rule search_lt_length)
    finally show False using fp by simp
  qed
next
  let ?out = "strip_linkedin_noise text"
  assume "\<forall>p\<in>set NOISE_MARKERS. \<forall>i\<le>length ?out. \<not> matches_at p ?out i"
  then have "fold (noise_step ?out) NOISE_MARKERS (length ?out) = length ?out"
    by (rule earliest_no_match)
  then have "strip_linkedin_noise ?out = strip ?out"
    by (simp add: strip_linkedin_noise_def [of ?out])
  then show "strip_linkedin_noise ?out = ?out"
    by (simp add: strip_linkedin_noise_stripped)
qed

theorem strip_linkedin_noise_twice_witness:
  "strip_linkedin_noise ''Hi\<newline>More profiles for you'' = ''Hi''
   \<and> strip_linkedin_noise (strip_linkedin_noise ''Hi\<newline>More profiles for you'') = ''Hi''
   \<and> list_all (\<lambda>p. search p ''Hi'' = None) NOISE_MARKERS"
proof -
  let ?t = "''Hi\<newline>More profiles for you''"
  have a: "strip_linkedin_noise (strip_linkedin_noise ?t) = strip_linkedin_noise ?t"
    by code_simp
  have b: "strip_linkedin_noise ?t = ''Hi''" by code_simp
  from a have "\<forall>p\<in>set NOISE_MARKERS. \<forall>i\<le>length (strip_linkedin_noise ?t).
      \<not> matches_at p (strip_linkedin_noise ?t) i"
    by (rule strip_linkedin_noise_twice [of ?t, THEN iffD1])
  then have "list_all (\<lambda>p. search p ''Hi'' = None) NOISE_MARKERS"
    unfolding b by (simp only: list_all_iff search_None_iff)
  with a b show ?thesis by simp
qed

text \<open>
  The function is not idempotent: a marker line preceded by a blank is not a match,
  and is one after the blank has been trimmed away.
\<close>

theorem strip_linkedin_noise_idempotent_counterexample:
  "strip_linkedin_noise '' More profiles for you'' = ''More profiles for you'' \<and>
   strip_linkedin_noise (strip_linkedin_noise '' More profiles for you'') = ''''"
  by code_simp

section \<open>Properties of the page extraction\<close>

subsection \<open>Laws of the effects\<close>

lemmas io_defs = io_return_def io_raise_def io_bind_def io_then_def io_catch_def emit_def
  may_raise_def answer_def sleep_def

lemma io_bind_return: "io_bind (io_return x) f = f x"
  by (rule ext) (simp add: io_bind_def io_return_def)

lemma io_bind_raise: "io_bind (io_raise e) f = io_raise e"
  by (rule ext) (simp add: io_bind_def io_raise_def)

lemma io_then_return: "io_then (io_return x) k = k"
  by (simp add: io_then_def io_bind_return)

lemma io_then_raise: "io_then (io_raise e) k = io_raise e"
  by (simp add: io_then_def io_bind_raise)

lemma io_then_emit: "io_then (emit ev) k tr = k (tr @ [ev])"
  by (simp add: io_then_def io_bind_def emit_def)

lemma may_raise_simps: "may_raise None = io_return ()" "may_raise (Some e) = io_raise e"
  by (simp_all add: may_raise_def)

lemma wait_cases:
  "io_catch (may_raise w) ignore_timeout =
     (if wait_passes w then io_return () else io_raise (the w))"
  by (rule ext, cases w; cases "the w") (auto simp: io_defs)

lemma answer_simps: "answer (Inr x) = io_return x" "answer (Inl e) = io_raise e"
  by (rule ext, simp add: answer_def io_return_def io_raise_def)+

lemmas io_laws = io_bind_return io_bind_raise io_then_return io_then_raise io_then_emit
  may_raise_simps wait_cases answer_simps

lemma extract_page_once_reads:
  assumes "reads (st (navigations tr) u) raw"
  shows "extract_page_once st u tr = (Inr (classify_raw raw), tr @ [Goto u])"
  using assms
  by (simp add: extract_page_once_def reads_def Let_def io_laws) (simp add: io_return_def)

lemma extract_page_once_session:
  "snd (extract_page_once st u tr) = tr @ [Goto u]"
proof -
  define load where "load = st (navigations tr) u"
  show ?thesis
    unfolding extract_page_once_def Let_def load_def [symmetric]
    by (cases "goto_raises load"; cases "rate_limit_raises load";
        cases "wait_passes (wait_raises load)"; cases "modal_close_raises load";
        cases "scroll_raises load"; cases "inner_text load")
       (simp_all add: io_laws, simp_all add: io_return_def io_raise_def)
qed

lemma extract_page_once_eq:
  "extract_page_once st u tr = (r, tr1) \<Longrightarrow> tr1 = tr @ [Goto u]"
  using extract_page_once_session [of st u tr] by simp

lemma classify_raw_sentinel:
  "classify_raw raw = RATE_LIMITED_MSG \<longleftrightarrow>
     (strip raw \<noteq> [] \<and> strip_linkedin_noise raw = [])
     \<or> strip_linkedin_noise raw = RATE_LIMITED_MSG"
proof -
  have ne: "RATE_LIMITED_MSG \<noteq> []" by (simp add: RATE_LIMITED_MSG_def)
  have e: "strip_linkedin_noise [] = []" by (simp add: strip_linkedin_noise_def strip_def)
  have s: "strip [] = []" by (simp add: strip_def)
  show ?thesis
    using ne e s by (auto simp: classify_raw_def Let_def)
qed

lemma extract_page_first_ok:
  assumes "extract_page_once st u tr = (Inr text, tr1)" "text \<noteq> RATE_LIMITED_MSG"
  shows "extract_page st u tr = (Inr text, tr1)"
  using assms by (simp add: extract_page_def io_defs)

lemma extract_page_first_raises:
  assumes "extract_page_once st u tr = (Inl e, tr1)"
  shows "extract_page st u tr = isolate_errors e tr1"
  using assms by (simp add: extract_page_def io_defs)

lemma extract_page_retry:
  assumes "extract_page_once st u tr = (Inr RATE_LIMITED_MSG, tr1)"
  shows "extract_page st u tr =
    (case extract_page_once st u (tr1 @ [Sleep RATE_LIMIT_RETRY_DELAY]) of
       (Inl e, tr2) \<Rightarrow> isolate_errors e tr2
     | (Inr text, tr2) \<Rightarrow> (Inr text, tr2))"
  using assms by (simp add: extract_page_def io_defs split: prod.splits sum.splits)

lemma isolate_errors_eq:
  "isolate_errors e tr = (if is_scraper_exception e then (Inl e, tr) else (Inr [], tr))"
  by (cases e) (simp_all add: io_defs)

lemma extract_page_session:
  "snd (extract_page st u tr) = tr @ [Goto u] \<or>
   snd (extract_page st u tr) = tr @ [Goto u, Sleep RATE_LIMIT_RETRY_DELAY, Goto u]"
proof -
  obtain r1 tr1 where a1: "extract_page_once st u tr = (r1, tr1)" by (cases "extract_page_once st u tr")
  then have t1: "tr1 = tr @ [Goto u]" by (rule extract_page_once_eq)
  show ?thesis
  proof (cases r1)
    case (Inl e)
    with a1 have "extract_page st u tr = isolate_errors e tr1"
      by (simp add: extract_page_first_raises)
    then show ?thesis using t1 by (simp add: isolate_errors_eq)
  next
    case (Inr page_text)
    show ?thesis
    proof (cases "page_text = RATE_LIMITED_MSG")
      case False
      with a1 Inr have "extract_page st u tr = (Inr page_text, tr1)"
        by (simp add: extract_page_first_ok)
      then show ?thesis using t1 by simp
    next
      case True
      obtain r2 tr2 where a2: "extract_page_once st u (tr1 @ [Sleep RATE_LIMIT_RETRY_DELAY]) = (r2, tr2)"
        by (cases "extract_page_once st u (tr1 @ [Sleep RATE_LIMIT_RETRY_DELAY])")
      then have t2: "tr2 = (tr1 @ [Sleep RATE_LIMIT_RETRY_DELAY]) @ [Goto u]"
        by (rule extract_page_once_eq)
      from a1 Inr True have "extract_page st u tr =
          (case extract_page_once st u (tr1 @ [Sleep RATE_LIMIT_RETRY_DELAY]) of
             (Inl e, tr2) \<Rightarrow> isolate_errors e tr2
           | (Inr text, tr2) \<Rightarrow> (Inr text, tr2))"
        by (simp add: extract_page_retry)
      then have "snd (extract_page st u tr) = tr2"
        using a2 by (cases r2) (simp_all add: isolate_errors_eq)
      then show ?thesis using t1 t2 by simp
    qed
  qed
qed

lemma extract_page_retry_session:
  assumes "extract_page_once st u tr = (Inr RATE_LIMITED_MSG, tr1)"
    and "extract_page_once st u (tr1 @ [Sleep RATE_LIMIT_RETRY_DELAY]) = (r2, tr2)"
  shows "tr1 = tr @ [Goto u]"
    and "snd (extract_page st u tr) = tr @ [Goto u, Sleep RATE_LIMIT_RETRY_DELAY, Goto u]"
    and "r2 = Inr res \<Longrightarrow> fst (extract_page st u tr) = Inr res"
proof -
  show t1: "tr1 = tr @ [Goto u]" using assms(1) by (rule extract_page_once_eq)
  have t2: "tr2 = (tr1 @ [Sleep RATE_LIMIT_RETRY_DELAY]) @ [Goto u]"
    using assms(2) by (rule extract_page_once_eq)
  have e: "extract_page st u tr =
      (case r2 of Inl e \<Rightarrow> isolate_errors e tr2 | Inr res \<Rightarrow> (Inr res, tr2))"
    using assms by (simp add: extract_page_retry split: sum.splits)
  then show "snd (extract_page st u tr) = tr @ [Goto u, Sleep RATE_LIMIT_RETRY_DELAY, Goto u]"
    using t1 t2 by (cases r2) (simp_all add: isolate_errors_eq)
  show "r2 = Inr res \<Longrightarrow> fst (extract_page st u tr) = Inr res"
    using e by simp
qed

lemma extract_page_navigations:
  "navigations (snd (extract_page st u tr)) \<le> navigations tr + 2"
  using extract_page_session [of st u tr] by (auto simp: navigations_def)

lemma reads_quiet_page: "reads (quiet_page raw) raw"
  by (simp add: reads_def quiet_page_def)

subsection \<open>The retry policy\<close>

text \<open>
  Claim C2: for every site, URL and session, \<open>extract_page\<close> makes one or two page
  attempts and no more. When the first attempt returns anything but the rate-limit
  sentinel, that text is returned after this single navigation, without a sleep. When
  the first attempt returns the sentinel, there is one sleep of the fixed backoff and
  exactly one more attempt, and what the second attempt returns (the sentinel again,
  possibly) is what \<open>extract_page\<close> returns.
\<close>

theorem extract_page_two_attempts:
  "(snd (extract_page st u tr) = tr @ [Goto u] \<or>
    snd (extract_page st u tr) = tr @ [Goto u, Sleep RATE_LIMIT_RETRY_DELAY, Goto u])
   \<and> navigations (snd (extract_page st u tr)) \<le> navigations tr + 2
   \<and> (\<forall>text tr1. extract_page_once st u tr = (Inr text, tr1) \<and> text \<noteq> RATE_LIMITED_MSG \<longrightarrow>
         extract_page st u tr = (Inr text, tr @ [Goto u]))
   \<and> (\<forall>tr1 r2 tr2. extract_page_once st u tr = (Inr RATE_LIMITED_MSG, tr1) \<and>
         extract_page_once st u (tr1 @ [Sleep RATE_LIMIT_RETRY_DELAY]) = (r2, tr2) \<longrightarrow>
         tr1 = tr @ [Goto u] \<and>
         snd (extract_page st u tr) = tr @ [Goto u, Sleep RATE_LIMIT_RETRY_DELAY, Goto u] \<and>
         (\<forall>text. r2 = Inr text \<longrightarrow> fst (extract_page st u tr) = Inr text))"
proof -
  have "\<And>res tr1. extract_page_once st u tr = (Inr res, tr1) \<Longrightarrow> res \<noteq> RATE_LIMITED_MSG \<Longrightarrow>
      extract_page st u tr = (Inr res, tr @ [Goto u])"
    using extract_page_first_ok extract_page_once_eq by metis
  then show ?thesis
    using extract_page_session [of st u tr] extract_page_navigations [of st u tr]
      extract_page_retry_session [of st u tr]
    by blast
qed

theorem extract_page_two_attempts_witness:
  "extract_page chrome_then_content ''u'' [] =
     (Inr ''Hello'', [Goto ''u'', Sleep RATE_LIMIT_RETRY_DELAY, Goto ''u''])"
proof -
  have c1: "classify_raw ''More profiles for you'' = RATE_LIMITED_MSG" by code_simp
  have c2: "classify_raw ''Hello'' = ''Hello''" by code_simp
  have "reads (chrome_then_content (navigations []) ''u'') ''More profiles for you''"
    by (simp add: chrome_then_content_def navigations_def reads_quiet_page)
  then have a1: "extract_page_once chrome_then_content ''u'' [] = (Inr RATE_LIMITED_MSG, [Goto ''u''])"
    using c1 by (simp add: extract_page_once_reads)
  have "reads (chrome_then_content
      (navigations ([Goto ''u''] @ [Sleep RATE_LIMIT_RETRY_DELAY])) ''u'') ''Hello''"
    by (simp add: chrome_then_content_def navigations_def reads_quiet_page)
  then have a2: "extract_page_once chrome_then_content ''u''
      ([Goto ''u''] @ [Sleep RATE_LIMIT_RETRY_DELAY]) =
      (Inr ''Hello'', [Goto ''u'', Sleep RATE_LIMIT_RETRY_DELAY, Goto ''u''])"
    using c2 by (simp add: extract_page_once_reads)
  from extract_page_two_attempts [of chrome_then_content "''u''" "[]"] a1 a2
  have "snd (extract_page chrome_then_content ''u'' []) =
          [Goto ''u'', Sleep RATE_LIMIT_RETRY_DELAY, Goto ''u'']"
    and "fst (extract_page chrome_then_content ''u'' []) = Inr ''Hello''"
    by simp_all
  then show ?thesis by (simp add: prod_eq_iff)
qed

text \<open>
  Claim C4: when an attempt inside \<open>extract_page\<close> (the first, or the retry) raises a
  \<open>LinkedInScraperException\<close>, \<open>extract_page\<close> raises that same exception; when it
  raises any other exception, \<open>extract_page\<close> returns the empty string. So
  \<open>extract_page\<close> raises nothing but scraper exceptions.
\<close>

theorem extract_page_exceptions:
  "(\<forall>e tr1. extract_page_once st u tr = (Inl e, tr1) \<longrightarrow>
      extract_page st u tr = (if is_scraper_exception e then (Inl e, tr1) else (Inr [], tr1)))
   \<and> (\<forall>e tr1 tr2. extract_page_once st u tr = (Inr RATE_LIMITED_MSG, tr1) \<and>
         extract_page_once st u (tr1 @ [Sleep RATE_LIMIT_RETRY_DELAY]) = (Inl e, tr2) \<longrightarrow>
      extract_page st u tr = (if is_scraper_exception e then (Inl e, tr2) else (Inr [], tr2)))
   \<and> (\<forall>e. fst (extract_page st u tr) = Inl e \<longrightarrow> is_scraper_exception e)"
proof (intro conjI allI impI)
  fix e tr1
  assume "extract_page_once st u tr = (Inl e, tr1)"
  then show "extract_page st u tr = (if is_scraper_exception e then (Inl e, tr1) else (Inr [], tr1))"
    by (simp add: extract_page_first_raises isolate_errors_eq)
next
  fix e tr1 tr2
  assume "extract_page_once st u tr = (Inr RATE_LIMITED_MSG, tr1) \<and>
         extract_page_once st u (tr1 @ [Sleep RATE_LIMIT_RETRY_DELAY]) = (Inl e, tr2)"
  then show "extract_page st u tr = (if is_scraper_exception e then (Inl e, tr2) else (Inr [], tr2))"
    by (simp add: extract_page_retry isolate_errors_eq)
next
  fix e
  assume r: "fst (extract_page st u tr) = Inl e"
  obtain r1 tr1 where a1: "extract_page_once st u tr = (r1, tr1)"
    by (cases "extract_page_once st u tr")
  show "is_scraper_exception e"
  proof (cases r1)
    case (Inl e1)
    with a1 r show ?thesis
      by (simp add: extract_page_first_raises isolate_errors_eq split: if_splits)
  next
    case (Inr page_text)
    show ?thesis
    proof (cases "page_text = RATE_LIMITED_MSG")
      case False
      with a1 Inr r show ?thesis by (simp add: extract_page_first_ok)
    next
      case True
      with a1 Inr r show ?thesis
        by (simp add: extract_page_retry isolate_errors_eq split: prod.splits sum.splits if_splits)
    qed
  qed
qed

theorem extract_page_exceptions_witness:
  "extract_page (\<lambda>n u. blocked_page (LinkedInScraperException ''rate limit'')) ''u'' [] =
     (Inl (LinkedInScraperException ''rate limit''), [Goto ''u''])
   \<and> extract_page (\<lambda>n u. blocked_page (OtherException ''boom'')) ''u'' [] =
     (Inr [], [Goto ''u''])"
proof -
  have a: "extract_page_once (\<lambda>n u. blocked_page e) ''u'' [] = (Inl e, [Goto ''u''])" for e
    by (simp add: extract_page_once_def blocked_page_def io_laws) (simp add: io_raise_def)
  from extract_page_exceptions [of "\<lambda>n u. blocked_page (LinkedInScraperException ''rate limit'')" "''u''" "[]"]
    a [of "LinkedInScraperException ''rate limit''"]
  have 1: "extract_page (\<lambda>n u. blocked_page (LinkedInScraperException ''rate limit'')) ''u'' [] =
     (Inl (LinkedInScraperException ''rate limit''), [Goto ''u''])" by simp
  from extract_page_exceptions [of "\<lambda>n u. blocked_page (OtherException ''boom'')" "''u''" "[]"]
    a [of "OtherException ''boom''"]
  have 2: "extract_page (\<lambda>n u. blocked_page (OtherException ''boom'')) ''u'' [] =
     (Inr [], [Goto ''u''])" by simp
  from 1 2 show ?thesis by simp
qed

subsection \<open>One attempt: blocked, empty, or content\<close>

text \<open>
  Claim C3, as the code has it: when no step of the attempt raises and the page's raw
  \<open>innerText\<close> is read, \<open>_extract_page_once\<close> returns; an empty raw text gives the
  empty string; a raw text that is not blank and strips to the empty string gives the
  sentinel; every other raw text gives its stripped text. The sentinel is returned if
  and only if the raw text is not blank and strips to the empty string, or the
  stripped text of the page is itself the sentinel message.
\<close>

theorem extract_page_once_classifies:
  assumes "reads (st (navigations tr) u) raw"
  shows "\<exists>r. extract_page_once st u tr = (Inr r, tr @ [Goto u])
     \<and> (raw = [] \<longrightarrow> r = [])
     \<and> (strip raw \<noteq> [] \<and> strip_linkedin_noise raw = [] \<longrightarrow> r = RATE_LIMITED_MSG)
     \<and> (\<not> (strip raw \<noteq> [] \<and> strip_linkedin_noise raw = []) \<longrightarrow> r = strip_linkedin_noise raw)
     \<and> (r = RATE_LIMITED_MSG \<longleftrightarrow>
          (strip raw \<noteq> [] \<and> strip_linkedin_noise raw = [])
          \<or> strip_linkedin_noise raw = RATE_LIMITED_MSG)"
proof -
  have s: "strip [] = []" by (simp add: strip_def)
  have e: "strip_linkedin_noise [] = []" by (simp add: strip_linkedin_noise_def strip_def)
  have "extract_page_once st u tr = (Inr (classify_raw raw), tr @ [Goto u])"
    using assms by (rule extract_page_once_reads)
  moreover have "raw = [] \<longrightarrow> classify_raw raw = []" by (simp add: classify_raw_def)
  moreover have "strip raw \<noteq> [] \<and> strip_linkedin_noise raw = [] \<longrightarrow> classify_raw raw = RATE_LIMITED_MSG"
    using e s by (auto simp: classify_raw_def Let_def)
  moreover have "\<not> (strip raw \<noteq> [] \<and> strip_linkedin_noise raw = []) \<longrightarrow>
      classify_raw raw = strip_linkedin_noise raw"
    using e s by (auto simp: classify_raw_def Let_def)
  ultimately show ?thesis using classify_raw_sentinel [of raw] by blast
qed

theorem extract_page_once_classifies_witness:
  "extract_page_once (\<lambda>n u. quiet_page ''More profiles for you'') ''u'' [] =
     (Inr RATE_LIMITED_MSG, [Goto ''u''])"
proof -
  have s: "strip ''More profiles for you'' \<noteq> [] \<and> strip_linkedin_noise ''More profiles for you'' = []"
    by code_simp
  from extract_page_once_classifies [of "\<lambda>n u. quiet_page ''More profiles for you''" "[]" "''u''",
      OF reads_quiet_page] s
  show ?thesis by auto
qed

text \<open>
  The sentinel is an ordinary string: a page whose text is the sentinel message is
  returned as the sentinel, although its raw text does not strip to the empty string.
\<close>

theorem extract_page_once_sentinel_counterexample:
  "extract_page_once (\<lambda>n u. quiet_page RATE_LIMITED_MSG) ''u'' [] =
     (Inr RATE_LIMITED_MSG, [Goto ''u''])
   \<and> strip RATE_LIMITED_MSG \<noteq> []
   \<and> strip_linkedin_noise RATE_LIMITED_MSG \<noteq> []"
proof -
  have c: "classify_raw RATE_LIMITED_MSG = RATE_LIMITED_MSG" by code_simp
  have s: "strip RATE_LIMITED_MSG \<noteq> []" by code_simp
  have n: "strip_linkedin_noise RATE_LIMITED_MSG \<noteq> []" by code_simp
  have "extract_page_once (\<lambda>n u. quiet_page RATE_LIMITED_MSG) ''u'' [] =
     (Inr (classify_raw RATE_LIMITED_MSG), [] @ [Goto ''u''])"
    by (rule extract_page_once_reads) (rule reads_quiet_page)
  with c s n show ?thesis by simp
qed

section \<open>What a computation adds to the session\<close>

lemma appendsI:
  assumes "\<And>tr. \<exists>more. snd (m tr) = tr @ more \<and> list_all P more"
  shows "appends m P"
  using assms by (simp add: appends_def)

lemma appendsD:
  assumes "appends m P"
  obtains more where "snd (m tr) = tr @ more" "list_all P more"
  using assms unfolding appends_def by blast

lemma appends_return: "appends (io_return x) P"
  by (simp add: appends_def io_return_def)

lemma appends_raise: "appends (io_raise e) P"
  by (simp add: appends_def io_raise_def)

lemma appends_answer: "appends (answer r) P"
  by (simp add: appends_def answer_def)

lemma appends_may_raise: "appends (may_raise r) P"
  by (cases r) (simp_all add: may_raise_simps appends_return appends_raise)

lemma appends_emit: "P ev \<Longrightarrow> appends (emit ev) P"
  by (simp add: appends_def emit_def)

lemma appends_bind:
  assumes "appends m P" "\<And>x. appends (f x) P"
  shows "appends (io_bind m f) P"
proof (rule appendsI)
  fix tr
  from assms(1) obtain m1 where m1: "snd (m tr) = tr @ m1" "list_all P m1"
    by (rule appendsD)
  show "\<exists>more. snd (io_bind m f tr) = tr @ more \<and> list_all P more"
  proof (cases "m tr")
    case (Pair r tr1)
    with m1 have t: "tr1 = tr @ m1" by simp
    show ?thesis
    proof (cases r)
      case (Inl e)
      with Pair t m1 show ?thesis by (simp add: io_bind_def)
    next
      case (Inr x)
      from assms(2) [of x] obtain m2 where m2: "snd (f x tr1) = tr1 @ m2" "list_all P m2"
        by (rule appendsD)
      with Pair Inr t m1 show ?thesis by (simp add: io_bind_def)
    qed
  qed
qed

lemma appends_then:
  assumes "appends m P" "appends k P"
  shows "appends (io_then m k) P"
  unfolding io_then_def using assms by (intro appends_bind)

lemma appends_catch:
  assumes "appends m P" "\<And>e. appends (h e) P"
  shows "appends (io_catch m h) P"
proof (rule appendsI)
  fix tr
  from assms(1) obtain m1 where m1: "snd (m tr) = tr @ m1" "list_all P m1"
    by (rule appendsD)
  show "\<exists>more. snd (io_catch m h tr) = tr @ more \<and> list_all P more"
  proof (cases "m tr")
    case (Pair r tr1)
    with m1 have t: "tr1 = tr @ m1" by simp
    show ?thesis
    proof (cases r)
      case (Inr x)
      with Pair t m1 show ?thesis by (simp add: io_catch_def)
    next
      case (Inl e)
      from assms(2) [of e] obtain m2 where m2: "snd (h e tr1) = tr1 @ m2" "list_all P m2"
        by (rule appendsD)
      with Pair Inl t m1 show ?thesis by (simp add: io_catch_def)
    qed
  qed
qed

lemma appends_sleep: "P (Sleep d) \<Longrightarrow> appends (sleep d) P"
  by (simp add: sleep_def appends_emit)

lemma appends_if:
  "appends a P \<Longrightarrow> appends b P \<Longrightarrow> appends (if c then a else b) P"
  by simp

lemmas appends_intros = appends_return appends_raise appends_answer appends_may_raise
  appends_emit appends_bind appends_then appends_catch appends_sleep

section \<open>Properties of profile scraping\<close>

subsection \<open>The loop over the page map\<close>

lemma scrape_section_cases:
  assumes "scrape_section ex name pu secs visited tr = (Inr acc, tr')"
  shows "snd acc = visited @ [pu] \<and>
         (fst acc = secs \<or> (\<exists>t. t \<noteq> [] \<and> fst (ex tr) = Inr t \<and> fst acc = secs(name \<mapsto> t)))"
proof (cases "ex tr")
  case (Pair r tr1)
  show ?thesis
  proof (cases r)
    case (Inl e)
    with Pair assms show ?thesis
      by (cases "is_scraper_exception e")
         (auto simp: scrape_section_def io_catch_def io_bind_def io_raise_def io_return_def)
  next
    case (Inr t)
    with Pair assms show ?thesis
      by (cases "t = []")
         (auto simp: scrape_section_def io_catch_def io_bind_def io_return_def)
  qed
qed

lemma person_pages_sections:
  assumes "person_pages st base flds pm secs visited tr = (Inr acc, tr')"
    and "fst acc name = Some t"
    and "\<And>n x. secs n = Some x \<Longrightarrow> Q n x"
    and "\<And>flag n suffix ov tr0 x. (flag, n, suffix, ov) \<in> set pm \<Longrightarrow> flag \<in> flds \<Longrightarrow> x \<noteq> [] \<Longrightarrow>
          fst ((if ov then extract_overlay st (base @ suffix)
                else extract_page st (base @ suffix)) tr0) = Inr x \<Longrightarrow> Q n x"
  shows "Q name t"
  using assms
proof (induction pm arbitrary: secs visited tr)
  case Nil
  then show ?case by (auto simp: io_return_def)
next
  case (Cons entry pm)
  obtain flag n suffix ov where entry: "entry = (flag, n, suffix, ov)" by (cases entry) auto
  have later: "\<And>flag n suffix ov tr0 x. (flag, n, suffix, ov) \<in> set pm \<Longrightarrow> flag \<in> flds \<Longrightarrow>
      x \<noteq> [] \<Longrightarrow>
      fst ((if ov then extract_overlay st (base @ suffix)
            else extract_page st (base @ suffix)) tr0) = Inr x \<Longrightarrow> Q n x"
    using Cons.prems(4) by (meson list.set_intros(2))
  show ?case
  proof (cases "flag \<in> flds")
    case False
    with Cons.prems(1) entry
    have "person_pages st base flds pm secs visited tr = (Inr acc, tr')" by simp
    then show ?thesis using Cons.prems(2,3) later by (rule Cons.IH)
  next
    case True
    let ?ex = "if ov then extract_overlay st (base @ suffix) else extract_page st (base @ suffix)"
    obtain r1 tr1 where s1: "scrape_section ?ex n (base @ suffix) secs visited tr = (r1, tr1)"
      by (cases "scrape_section ?ex n (base @ suffix) secs visited tr")
    show ?thesis
    proof (cases r1)
      case (Inl e)
      with Cons.prems(1) entry True s1 show ?thesis by (simp add: io_bind_def)
    next
      case (Inr acc1)
      with Cons.prems(1) entry True s1
      have rest: "person_pages st base flds pm (fst acc1) (snd acc1) (tr1 @ [Sleep NAV_DELAY]) =
          (Inr acc, tr')"
        by (simp add: io_bind_def io_then_def sleep_def emit_def)
      from s1 Inr have c: "fst acc1 = secs \<or>
          (\<exists>x. x \<noteq> [] \<and> fst (?ex tr) = Inr x \<and> fst acc1 = secs(n \<mapsto> x))"
        using scrape_section_cases by blast
      have "\<And>m x. fst acc1 m = Some x \<Longrightarrow> Q m x"
      proof -
        fix m x assume a: "fst acc1 m = Some x"
        from c show "Q m x"
        proof
          assume "fst acc1 = secs"
          with a show ?thesis using Cons.prems(3) by simp
        next
          assume "\<exists>y. y \<noteq> [] \<and> fst (?ex tr) = Inr y \<and> fst acc1 = secs(n \<mapsto> y)"
          then obtain y where y: "y \<noteq> []" "fst (?ex tr) = Inr y" "fst acc1 = secs(n \<mapsto> y)"
            by blast
          show ?thesis
          proof (cases "m = n")
            case True
            with a y(3) have "x = y" by simp
            moreover have "(flag, n, suffix, ov) \<in> set (entry # pm)" using entry by simp
            ultimately show ?thesis
              using Cons.prems(4) [of flag n suffix ov x tr] \<open>flag \<in> flds\<close> y True by simp
          next
            case False
            with a y(3) show ?thesis using Cons.prems(3) by simp
          qed
        qed
      qed
      with rest Cons.prems(2) show ?thesis using later by (rule Cons.IH)
    qed
  qed
qed

lemma company_pages_sections:
  assumes "company_pages st base flds pm secs visited tr = (Inr acc, tr')"
    and "fst acc name = Some t"
    and "\<And>n x. secs n = Some x \<Longrightarrow> Q n x"
    and "\<And>flag n suffix tr0 x. (flag, n, suffix) \<in> set pm \<Longrightarrow> flag \<in> flds \<Longrightarrow> x \<noteq> [] \<Longrightarrow>
          fst (extract_page st (base @ suffix) tr0) = Inr x \<Longrightarrow> Q n x"
  shows "Q name t"
  using assms
proof (induction pm arbitrary: secs visited tr)
  case Nil
  then show ?case by (auto simp: io_return_def)
next
  case (Cons entry pm)
  obtain flag n suffix where entry: "entry = (flag, n, suffix)" by (cases entry) auto
  have later: "\<And>flag n suffix tr0 x. (flag, n, suffix) \<in> set pm \<Longrightarrow> flag \<in> flds \<Longrightarrow>
      x \<noteq> [] \<Longrightarrow> fst (extract_page st (base @ suffix) tr0) = Inr x \<Longrightarrow> Q n x"
    using Cons.prems(4) by (meson list.set_intros(2))
  show ?case
  proof (cases "flag \<in> flds")
    case False
    with Cons.prems(1) entry
    have "company_pages st base flds pm secs visited tr = (Inr acc, tr')" by simp
    then show ?thesis using Cons.prems(2,3) later by (rule Cons.IH)
  next
    case True
    let ?ex = "extract_page st (base @ suffix)"
    obtain r1 tr1 where s1: "scrape_section ?ex n (base @ suffix) secs visited tr = (r1, tr1)"
      by (cases "scrape_section ?ex n (base @ suffix) secs visited tr")
    show ?thesis
    proof (cases r1)
      case (Inl e)
      with Cons.prems(1) entry True s1 show ?thesis by (simp add: io_bind_def)
    next
      case (Inr acc1)
      with Cons.prems(1) entry True s1
      have rest: "company_pages st base flds pm (fst acc1) (snd acc1) (tr1 @ [Sleep NAV_DELAY]) =
          (Inr acc, tr')"
        by (simp add: io_bind_def io_then_def sleep_def emit_def)
      from s1 Inr have c: "fst acc1 = secs \<or>
          (\<exists>x. x \<noteq> [] \<and> fst (?ex tr) = Inr x \<and> fst acc1 = secs(n \<mapsto> x))"
        using scrape_section_cases by blast
      have "\<And>m x. fst acc1 m = Some x \<Longrightarrow> Q m x"
      proof -
        fix m x assume a: "fst acc1 m = Some x"
        from c show "Q m x"
        proof
          assume "fst acc1 = secs"
          with a show ?thesis using Cons.prems(3) by simp
        next
          assume "\<exists>y. y \<noteq> [] \<and> fst (?ex tr) = Inr y \<and> fst acc1 = secs(n \<mapsto> y)"
          then obtain y where y: "y \<noteq> []" "fst (?ex tr) = Inr y" "fst acc1 = secs(n \<mapsto> y)"
            by blast
          show ?thesis
          proof (cases "m = n")
            case True
            with a y(3) have "x = y" by simp
            moreover have "(flag, n, suffix) \<in> set (entry # pm)" using entry by simp
            ultimately show ?thesis
              using Cons.prems(4) [of flag n suffix x tr] \<open>flag \<in> flds\<close> y True by simp
          next
            case False
            with a y(3) show ?thesis using Cons.prems(3) by simp
          qed
        qed
      qed
      with rest Cons.prems(2) show ?thesis using later by (rule Cons.IH)
    qed
  qed
qed

lemma scrape_person_loop:
  assumes "scrape_person st pmap who flds tr = (Inr res, tr')"
  shows "\<exists>acc. person_pages st (''https://www.linkedin.com/in/'' @ who) (flds \<union> {BASIC_INFO})
            person_page_map Map.empty [] tr = (Inr acc, tr')
          \<and> sections res = fst acc \<and> pages_visited res = snd acc
          \<and> sections_requested res =
              ''main_profile'' # requested_names pmap person_members (flds \<union> {BASIC_INFO})"
  using assms
  by (auto simp: scrape_person_def Let_def io_bind_def io_return_def
      split: prod.splits sum.splits)

lemma scrape_company_loop:
  assumes "scrape_company st cmap who flds tr = (Inr res, tr')"
  shows "\<exists>acc. company_pages st (''https://www.linkedin.com/company/'' @ who) (flds \<union> {ABOUT})
            company_page_map Map.empty [] tr = (Inr acc, tr')
          \<and> sections res = fst acc \<and> pages_visited res = snd acc
          \<and> sections_requested res =
              ''about'' # requested_names cmap company_members (flds \<union> {ABOUT})"
  using assms
  by (auto simp: scrape_company_def Let_def io_bind_def io_return_def
      split: prod.splits sum.splits)

lemma scrape_person_sections:
  assumes "scrape_person st pmap who flds tr = (Inr res, tr')"
    and "sections res name = Some t"
  shows "t \<noteq> [] \<and>
     (\<exists>flag suffix ov tr0. (flag, name, suffix, ov) \<in> set person_page_map \<and>
        flag \<in> flds \<union> {BASIC_INFO} \<and>
        fst ((if ov then extract_overlay st (''https://www.linkedin.com/in/'' @ who @ suffix)
              else extract_page st (''https://www.linkedin.com/in/'' @ who @ suffix)) tr0) = Inr t)"
proof -
  define base where "base = ''https://www.linkedin.com/in/'' @ who"
  define F where "F = flds \<union> {BASIC_INFO}"
  define Q where "Q = (\<lambda>n x. x \<noteq> [] \<and>
     (\<exists>flag suffix ov tr0. (flag, n, suffix, ov) \<in> set person_page_map \<and> flag \<in> F \<and>
        fst ((if ov then extract_overlay st (base @ suffix)
              else extract_page st (base @ suffix)) tr0) = Inr x))"
  from scrape_person_loop [OF assms(1)] obtain acc where
    acc: "person_pages st base F person_page_map Map.empty [] tr = (Inr acc, tr')"
      "sections res = fst acc"
    unfolding base_def F_def by blast
  from assms(2) acc(2) have "fst acc name = Some t" by simp
  with acc(1) have "Q name t"
  proof (rule person_pages_sections)
    show "\<And>n x. Map.empty n = Some x \<Longrightarrow> Q n x" by simp
    show "\<And>flag n suffix ov tr0 x. (flag, n, suffix, ov) \<in> set person_page_map \<Longrightarrow>
        flag \<in> F \<Longrightarrow> x \<noteq> [] \<Longrightarrow>
        fst ((if ov then extract_overlay st (base @ suffix)
              else extract_page st (base @ suffix)) tr0) = Inr x \<Longrightarrow> Q n x"
      unfolding Q_def by blast
  qed
  then show ?thesis
    unfolding Q_def base_def F_def by (simp only: append_assoc simp_thms)
qed

lemma scrape_company_sections:
  assumes "scrape_company st cmap who flds tr = (Inr res, tr')"
    and "sections res name = Some t"
  shows "t \<noteq> [] \<and>
     (\<exists>flag suffix tr0. (flag, name, suffix) \<in> set company_page_map \<and>
        flag \<in> flds \<union> {ABOUT} \<and>
        fst (extract_page st (''https://www.linkedin.com/company/'' @ who @ suffix) tr0) = Inr t)"
proof -
  define base where "base = ''https://www.linkedin.com/company/'' @ who"
  define F where "F = flds \<union> {ABOUT}"
  define Q where "Q = (\<lambda>n x. x \<noteq> [] \<and>
     (\<exists>flag suffix tr0. (flag, n, suffix) \<in> set company_page_map \<and> flag \<in> F \<and>
        fst (extract_page st (base @ suffix) tr0) = Inr x))"
  from scrape_company_loop [OF assms(1)] obtain acc where
    acc: "company_pages st base F company_page_map Map.empty [] tr = (Inr acc, tr')"
      "sections res = fst acc"
    unfolding base_def F_def by blast
  from assms(2) acc(2) have "fst acc name = Some t" by simp
  with acc(1) have "Q name t"
  proof (rule company_pages_sections)
    show "\<And>n x. Map.empty n = Some x \<Longrightarrow> Q n x" by simp
    show "\<And>flag n suffix tr0 x. (flag, n, suffix) \<in> set company_page_map \<Longrightarrow>
        flag \<in> F \<Longrightarrow> x \<noteq> [] \<Longrightarrow>
        fst (extract_page st (base @ suffix) tr0) = Inr x \<Longrightarrow> Q n x"
      unfolding Q_def by blast
  qed
  then show ?thesis
    unfolding Q_def base_def F_def by (simp only: append_assoc simp_thms)
qed

lemma extract_page_reads:
  assumes "reads (st (navigations tr) u) raw" "classify_raw raw \<noteq> RATE_LIMITED_MSG"
  shows "extract_page st u tr = (Inr (classify_raw raw), tr @ [Goto u])"
  using extract_page_once_reads [of st tr u raw] assms by (simp add: extract_page_first_ok)

lemma extract_page_profile_site:
  "extract_page profile_site u tr =
     (Inr (if u = ''https://www.linkedin.com/in/bob/'' then ''Hello'' else []), tr @ [Goto u])"
proof -
  have c1: "classify_raw ''Hello'' = ''Hello''" by code_simp
  have c2: "classify_raw [] = []" by (simp add: classify_raw_def)
  have n1: "''Hello'' \<noteq> RATE_LIMITED_MSG" by (simp add: RATE_LIMITED_MSG_def)
  have n2: "[] \<noteq> RATE_LIMITED_MSG" by (simp add: RATE_LIMITED_MSG_def)
  let ?raw = "if u = ''https://www.linkedin.com/in/bob/'' then ''Hello'' else []"
  have r: "reads (profile_site (navigations tr) u) ?raw"
    unfolding profile_site_def by (rule reads_quiet_page)
  have "classify_raw ?raw = ?raw" using c1 c2 by simp
  moreover from this have "classify_raw ?raw \<noteq> RATE_LIMITED_MSG" using n1 n2 by simp
  ultimately show ?thesis using extract_page_reads [of profile_site tr u ?raw] r by simp
qed

lemma scrape_bob:
  "\<exists>res tr'. scrape_person profile_site pmap ''bob'' {EXPERIENCE} [] = (Inr res, tr')
     \<and> sections res ''main_profile'' = Some ''Hello''
     \<and> sections res ''experience'' = None
     \<and> pages_visited res = [''https://www.linkedin.com/in/bob/'',
          ''https://www.linkedin.com/in/bob/details/experience/'']
     \<and> sections_requested res =
          ''main_profile'' # requested_names pmap person_members {BASIC_INFO, EXPERIENCE}"
  by (simp add: scrape_person_def Let_def person_page_map_def scrape_section_def
      extract_page_profile_site io_bind_def io_catch_def io_return_def io_then_def
      sleep_def emit_def)

lemma any_eventI: "any_event ev"
  by (simp add: any_event_def)

lemma appends_ignore_timeout: "appends (ignore_timeout e) P"
  by (cases e) (simp_all add: appends_return appends_raise)

lemma appends_isolate_errors: "appends (isolate_errors e) P"
  by (cases e) (simp_all add: appends_return appends_raise)

lemma appends_extract_page_once: "appends (extract_page_once st u) any_event"
proof (rule appendsI)
  fix tr
  define load where "load = st (navigations tr) u"
  have "appends (io_then (emit (Goto u))
     (io_then (may_raise (goto_raises load))
     (io_then (may_raise (rate_limit_raises load))
     (io_then (io_catch (may_raise (wait_raises load)) ignore_timeout)
     (io_then (may_raise (modal_close_raises load))
     (io_then (may_raise (scroll_raises load))
     (io_bind (answer (inner_text load)) (\<lambda>raw.
      io_return (classify_raw raw))))))))) any_event"
    by (intro appends_intros appends_ignore_timeout) (simp add: any_event_def)
  then show "\<exists>more. snd (extract_page_once st u tr) = tr @ more \<and> list_all any_event more"
    unfolding extract_page_once_def Let_def load_def by (rule appendsD) blast
qed

lemma appends_extract_overlay_once: "appends (extract_overlay_once st u) any_event"
proof (rule appendsI)
  fix tr
  define load where "load = st (navigations tr) u"
  have "appends (io_then (emit (Goto u))
     (io_then (may_raise (goto_raises load))
     (io_then (may_raise (rate_limit_raises load))
     (io_then (io_catch (may_raise (wait_raises load)) ignore_timeout)
     (io_bind (answer (inner_text load)) (\<lambda>raw.
      io_return (classify_raw raw))))))) any_event"
    by (intro appends_intros appends_ignore_timeout) (simp add: any_event_def)
  then show "\<exists>more. snd (extract_overlay_once st u tr) = tr @ more \<and> list_all any_event more"
    unfolding extract_overlay_once_def Let_def load_def by (rule appendsD) blast
qed

lemma appends_extract_page: "appends (extract_page st u) any_event"
  unfolding extract_page_def
  by (intro appends_catch appends_bind appends_extract_page_once appends_isolate_errors)
     (simp add: appends_return appends_then appends_sleep appends_extract_page_once any_event_def)

lemma appends_extract_overlay: "appends (extract_overlay st u) any_event"
  unfolding extract_overlay_def
  by (intro appends_catch appends_bind appends_extract_overlay_once appends_isolate_errors)
     (simp add: appends_return appends_then appends_sleep appends_extract_overlay_once
        any_event_def)

lemma appends_scrape_section:
  assumes "appends ex P"
  shows "appends (scrape_section ex n pu secs visited) P"
  unfolding scrape_section_def
  by (intro appends_catch appends_bind assms)
     (simp_all add: appends_return appends_raise)

lemma appends_person_pages:
  "appends (person_pages st base flds pm secs visited) any_event"
proof (induction pm arbitrary: secs visited)
  case Nil
  show ?case by (simp add: appends_return)
next
  case (Cons entry pm)
  obtain flag n suffix ov where entry: "entry = (flag, n, suffix, ov)" by (cases entry) auto
  show ?case
    unfolding entry
    by (auto intro!: appends_bind appends_then appends_sleep appends_scrape_section
          appends_extract_overlay appends_extract_page Cons.IH any_eventI)
qed

lemma appends_company_pages:
  "appends (company_pages st base flds pm secs visited) any_event"
proof (induction pm arbitrary: secs visited)
  case Nil
  show ?case by (simp add: appends_return)
next
  case (Cons entry pm)
  obtain flag n suffix where entry: "entry = (flag, n, suffix)" by (cases entry) auto
  show ?case
    unfolding entry
    by (auto intro!: appends_bind appends_then appends_sleep appends_scrape_section
          appends_extract_page Cons.IH any_eventI)
qed

lemma extract_page_starts:
  "\<exists>more. snd (extract_page st u tr) = tr @ Goto u # more"
  using extract_page_session [of st u tr] by auto

lemma scrape_section_session:
  "snd (scrape_section ex n pu secs visited tr) = snd (ex tr)"
  by (cases "ex tr"; cases "fst (ex tr)")
     (auto simp: scrape_section_def io_catch_def io_bind_def io_return_def io_raise_def)

lemma first_page_session:
  assumes "\<And>acc. appends (k acc) any_event"
  shows "\<exists>more. snd (io_bind (scrape_section (extract_page st u) n pu secs visited) k tr) =
           tr @ Goto u # more"
proof -
  obtain r1 tr1 where s1: "scrape_section (extract_page st u) n pu secs visited tr = (r1, tr1)"
    by (cases "scrape_section (extract_page st u) n pu secs visited tr")
  then have "tr1 = snd (extract_page st u tr)"
    using scrape_section_session [of "extract_page st u" n pu secs visited tr] by simp
  then obtain m1 where m1: "tr1 = tr @ Goto u # m1" using extract_page_starts by blast
  show ?thesis
  proof (cases r1)
    case (Inl e)
    with s1 m1 show ?thesis by (simp add: io_bind_def)
  next
    case (Inr acc)
    from assms [of acc] obtain m2 where "snd (k acc tr1) = tr1 @ m2"
      by (rule appendsD)
    with s1 Inr m1 show ?thesis by (simp add: io_bind_def)
  qed
qed

lemma person_pages_visited:
  assumes "person_pages st base flds pm secs visited tr = (Inr acc, tr')"
  shows "\<exists>more. snd acc = visited @ more"
  using assms
proof (induction pm arbitrary: secs visited tr)
  case Nil
  then show ?case by (auto simp: io_return_def)
next
  case (Cons entry pm)
  obtain flag n suffix ov where entry: "entry = (flag, n, suffix, ov)" by (cases entry) auto
  show ?case
  proof (cases "flag \<in> flds")
    case False
    with Cons.prems entry show ?thesis by (simp add: Cons.IH)
  next
    case True
    let ?ex = "if ov then extract_overlay st (base @ suffix) else extract_page st (base @ suffix)"
    obtain r1 tr1 where s1: "scrape_section ?ex n (base @ suffix) secs visited tr = (r1, tr1)"
      by (cases "scrape_section ?ex n (base @ suffix) secs visited tr")
    show ?thesis
    proof (cases r1)
      case (Inl e)
      with Cons.prems entry True s1 show ?thesis by (simp add: io_bind_def)
    next
      case (Inr acc1)
      with Cons.prems entry True s1
      have "person_pages st base flds pm (fst acc1) (snd acc1) (tr1 @ [Sleep NAV_DELAY]) =
          (Inr acc, tr')"
        by (simp add: io_bind_def io_then_def sleep_def emit_def)
      then obtain more where "snd acc = snd acc1 @ more" using Cons.IH by blast
      moreover from s1 Inr have "snd acc1 = visited @ [base @ suffix]"
        using scrape_section_cases by blast
      ultimately show ?thesis by simp
    qed
  qed
qed

lemma company_pages_visited:
  assumes "company_pages st base flds pm secs visited tr = (Inr acc, tr')"
  shows "\<exists>more. snd acc = visited @ more"
  using assms
proof (induction pm arbitrary: secs visited tr)
  case Nil
  then show ?case by (auto simp: io_return_def)
next
  case (Cons entry pm)
  obtain flag n suffix where entry: "entry = (flag, n, suffix)" by (cases entry) auto
  show ?case
  proof (cases "flag \<in> flds")
    case False
    with Cons.prems entry show ?thesis by (simp add: Cons.IH)
  next
    case True
    let ?ex = "extract_page st (base @ suffix)"
    obtain r1 tr1 where s1: "scrape_section ?ex n (base @ suffix) secs visited tr = (r1, tr1)"
      by (cases "scrape_section ?ex n (base @ suffix) secs visited tr")
    show ?thesis
    proof (cases r1)
      case (Inl e)
      with Cons.prems entry True s1 show ?thesis by (simp add: io_bind_def)
    next
      case (Inr acc1)
      with Cons.prems entry True s1
      have "company_pages st base flds pm (fst acc1) (snd acc1) (tr1 @ [Sleep NAV_DELAY]) =
          (Inr acc, tr')"
        by (simp add: io_bind_def io_then_def sleep_def emit_def)
      then obtain more where "snd acc = snd acc1 @ more" using Cons.IH by blast
      moreover from s1 Inr have "snd acc1 = visited @ [base @ suffix]"
        using scrape_section_cases by blast
      ultimately show ?thesis by simp
    qed
  qed
qed

lemma snd_bind_return: "snd (io_bind m (\<lambda>x. io_return (f x)) tr) = snd (m tr)"
  by (cases "m tr"; cases "fst (m tr)") (auto simp: io_bind_def io_return_def)

lemma person_pages_head:
  assumes "flag \<in> flds"
  shows "person_pages st base flds ((flag, n, suffix, False) # rest) secs visited =
     io_bind (scrape_section (extract_page st (base @ suffix)) n (base @ suffix) secs visited)
       (\<lambda>acc. io_then (sleep NAV_DELAY) (person_pages st base flds rest (fst acc) (snd acc)))"
  using assms by simp

lemma company_pages_head:
  assumes "flag \<in> flds"
  shows "company_pages st base flds ((flag, n, suffix) # rest) secs visited =
     io_bind (scrape_section (extract_page st (base @ suffix)) n (base @ suffix) secs visited)
       (\<lambda>acc. io_then (sleep NAV_DELAY) (company_pages st base flds rest (fst acc) (snd acc)))"
  using assms by simp

lemma person_page_map_head:
  "\<exists>rest. person_page_map = (BASIC_INFO, ''main_profile'', ''/'', False) # rest"
  by (simp add: person_page_map_def)

lemma company_page_map_head:
  "\<exists>rest. company_page_map = (ABOUT, ''about'', ''/about/'') # rest"
  by (simp add: company_page_map_def)

lemma first_page_visited:
  assumes "io_bind (scrape_section ex n pu secs []) k tr = (Inr acc, tr')"
    and "\<And>acc1 tr1. k acc1 tr1 = (Inr acc, tr') \<Longrightarrow> \<exists>more. snd acc = snd acc1 @ more"
  shows "\<exists>more. snd acc = pu # more"
proof -
  obtain r1 tr1 where s1: "scrape_section ex n pu secs [] tr = (r1, tr1)"
    by (cases "scrape_section ex n pu secs [] tr")
  show ?thesis
  proof (cases r1)
    case (Inl e)
    with assms(1) s1 show ?thesis by (simp add: io_bind_def)
  next
    case (Inr acc1)
    with assms(1) s1 have "k acc1 tr1 = (Inr acc, tr')" by (simp add: io_bind_def)
    then obtain more where "snd acc = snd acc1 @ more" using assms(2) by blast
    moreover from s1 Inr have "snd acc1 = [] @ [pu]" using scrape_section_cases by blast
    ultimately show ?thesis by simp
  qed
qed

lemma scrape_person_session:
  "\<exists>more. snd (scrape_person st pmap who flds tr) =
     tr @ Goto (''https://www.linkedin.com/in/'' @ who @ ''/'') # more"
proof -
  define base where "base = ''https://www.linkedin.com/in/'' @ who"
  define F where "F = flds \<union> {BASIC_INFO}"
  obtain rest where rest: "person_page_map = (BASIC_INFO, ''main_profile'', ''/'', False) # rest"
    using person_page_map_head by blast
  have "BASIC_INFO \<in> F" by (simp add: F_def)
  then have "\<exists>more. snd (person_pages st base F person_page_map Map.empty [] tr) =
      tr @ Goto (base @ ''/'') # more"
    unfolding rest
    by (simp only: person_pages_head)
       (rule first_page_session, intro appends_then appends_sleep appends_person_pages any_eventI)
  then show ?thesis
    unfolding scrape_person_def Let_def snd_bind_return base_def F_def
    by (simp only: append_assoc)
qed

lemma scrape_company_session:
  "\<exists>more. snd (scrape_company st cmap who flds tr) =
     tr @ Goto (''https://www.linkedin.com/company/'' @ who @ ''/about/'') # more"
proof -
  define base where "base = ''https://www.linkedin.com/company/'' @ who"
  define F where "F = flds \<union> {ABOUT}"
  obtain rest where rest: "company_page_map = (ABOUT, ''about'', ''/about/'') # rest"
    using company_page_map_head by blast
  have "ABOUT \<in> F" by (simp add: F_def)
  then have "\<exists>more. snd (company_pages st base F company_page_map Map.empty [] tr) =
      tr @ Goto (base @ ''/about/'') # more"
    unfolding rest
    by (simp only: company_pages_head)
       (rule first_page_session, intro appends_then appends_sleep appends_company_pages any_eventI)
  then show ?thesis
    unfolding scrape_company_def Let_def snd_bind_return base_def F_def
    by (simp only: append_assoc)
qed

lemma scrape_person_first:
  assumes "scrape_person st pmap who flds tr = (Inr res, tr')"
  shows "(\<exists>more. sections_requested res = ''main_profile'' # more) \<and>
         (\<exists>more. pages_visited res = (''https://www.linkedin.com/in/'' @ who @ ''/'') # more)"
proof -
  define base where "base = ''https://www.linkedin.com/in/'' @ who"
  define F where "F = flds \<union> {BASIC_INFO}"
  from scrape_person_loop [OF assms] obtain acc where
    acc: "person_pages st base F person_page_map Map.empty [] tr = (Inr acc, tr')"
      "pages_visited res = snd acc"
      "sections_requested res = ''main_profile'' # requested_names pmap person_members F"
    unfolding base_def F_def by blast
  obtain rest where rest: "person_page_map = (BASIC_INFO, ''main_profile'', ''/'', False) # rest"
    using person_page_map_head by blast
  have "BASIC_INFO \<in> F" by (simp add: F_def)
  with acc(1) have "io_bind (scrape_section (extract_page st (base @ ''/'')) ''main_profile''
        (base @ ''/'') Map.empty [])
       (\<lambda>a. io_then (sleep NAV_DELAY) (person_pages st base F rest (fst a) (snd a))) tr =
       (Inr acc, tr')"
    unfolding rest by (simp only: person_pages_head)
  then have "\<exists>more. snd acc = (base @ ''/'') # more"
  proof (rule first_page_visited)
    fix acc1 tr1
    assume "io_then (sleep NAV_DELAY) (person_pages st base F rest (fst acc1) (snd acc1)) tr1 =
        (Inr acc, tr')"
    then have "person_pages st base F rest (fst acc1) (snd acc1) (tr1 @ [Sleep NAV_DELAY]) =
        (Inr acc, tr')"
      by (simp add: io_then_def io_bind_def sleep_def emit_def)
    then show "\<exists>more. snd acc = snd acc1 @ more" by (rule person_pages_visited)
  qed
  with acc(2,3) show ?thesis unfolding base_def by (simp only: append_assoc) blast
qed

lemma scrape_company_first:
  assumes "scrape_company st cmap who flds tr = (Inr res, tr')"
  shows "(\<exists>more. sections_requested res = ''about'' # more) \<and>
         (\<exists>more. pages_visited res = (''https://www.linkedin.com/company/'' @ who @ ''/about/'') # more)"
proof -
  define base where "base = ''https://www.linkedin.com/company/'' @ who"
  define F where "F = flds \<union> {ABOUT}"
  from scrape_company_loop [OF assms] obtain acc where
    acc: "company_pages st base F company_page_map Map.empty [] tr = (Inr acc, tr')"
      "pages_visited res = snd acc"
      "sections_requested res = ''about'' # requested_names cmap company_members F"
    unfolding base_def F_def by blast
  obtain rest where rest: "company_page_map = (ABOUT, ''about'', ''/about/'') # rest"
    using company_page_map_head by blast
  have "ABOUT \<in> F" by (simp add: F_def)
  with acc(1) have "io_bind (scrape_section (extract_page st (base @ ''/about/'')) ''about''
        (base @ ''/about/'') Map.empty [])
       (\<lambda>a. io_then (sleep NAV_DELAY) (company_pages st base F rest (fst a) (snd a))) tr =
       (Inr acc, tr')"
    unfolding rest by (simp only: company_pages_head)
  then have "\<exists>more. snd acc = (base @ ''/about/'') # more"
  proof (rule first_page_visited)
    fix acc1 tr1
    assume "io_then (sleep NAV_DELAY) (company_pages st base F rest (fst acc1) (snd acc1)) tr1 =
        (Inr acc, tr')"
    then have "company_pages st base F rest (fst acc1) (snd acc1) (tr1 @ [Sleep NAV_DELAY]) =
        (Inr acc, tr')"
      by (simp add: io_then_def io_bind_def sleep_def emit_def)
    then show "\<exists>more. snd acc = snd acc1 @ more" by (rule company_pages_visited)
  qed
  with acc(2,3) show ?thesis unfolding base_def by (simp only: append_assoc) blast
qed

lemma scrape_person_forced: 
  "scrape_person st pmap who flds = scrape_person st pmap who (flds \<union> {BASIC_INFO})"
  by (simp add: scrape_person_def)

lemma scrape_company_forced: 
  "scrape_company st cmap who flds = scrape_company st cmap who (flds \<union> {ABOUT})"
  by (simp add: scrape_company_def)

subsection \<open>Sections and the mandatory base section\<close>

text \<open>
  Claim C6: when \<open>scrape_person\<close> or \<open>scrape_company\<close> returns, every key of the
  \<open>sections\<close> mapping is the name of a requested section of the page map, and its
  value is a non-empty text that the extraction of that section's page returned. So
  a section whose page yields the empty string has no key.
\<close>

theorem scrape_sections_nonempty:
  "(scrape_person st pmap who pflds tr = (Inr res, tr') \<and> sections res name = Some t \<longrightarrow>
      t \<noteq> [] \<and>
      (\<exists>flag suffix ov tr0. (flag, name, suffix, ov) \<in> set person_page_map \<and>
         flag \<in> pflds \<union> {BASIC_INFO} \<and>
         fst ((if ov then extract_overlay st (''https://www.linkedin.com/in/'' @ who @ suffix)
               else extract_page st (''https://www.linkedin.com/in/'' @ who @ suffix)) tr0) = Inr t))
   \<and> (scrape_company st cmap who cflds tr = (Inr res, tr') \<and> sections res name = Some t \<longrightarrow>
      t \<noteq> [] \<and>
      (\<exists>flag suffix tr0. (flag, name, suffix) \<in> set company_page_map \<and>
         flag \<in> cflds \<union> {ABOUT} \<and>
         fst (extract_page st (''https://www.linkedin.com/company/'' @ who @ suffix) tr0) = Inr t))"
  using scrape_person_sections [of st pmap who pflds tr res tr' name t]
    scrape_company_sections [of st cmap who cflds tr res tr' name t]
  by blast

theorem scrape_sections_nonempty_witness:
  "\<exists>res tr'. scrape_person profile_site [] ''bob'' {EXPERIENCE} [] = (Inr res, tr')
     \<and> sections res ''main_profile'' = Some ''Hello''
     \<and> sections res ''experience'' = None
     \<and> (\<exists>flag suffix ov tr0. (flag, ''main_profile'', suffix, ov) \<in> set person_page_map \<and>
         flag \<in> {EXPERIENCE} \<union> {BASIC_INFO} \<and>
         fst ((if ov then extract_overlay profile_site (''https://www.linkedin.com/in/'' @ ''bob'' @ suffix)
               else extract_page profile_site (''https://www.linkedin.com/in/'' @ ''bob'' @ suffix)) tr0) =
           Inr ''Hello'')"
proof -
  from scrape_bob [of "[]"] obtain res tr' where
    r: "scrape_person profile_site [] ''bob'' {EXPERIENCE} [] = (Inr res, tr')"
      "sections res ''main_profile'' = Some ''Hello''" "sections res ''experience'' = None"
    by blast
  from scrape_sections_nonempty
    [of profile_site "[]" "''bob''" "{EXPERIENCE}" "[]" res tr' "''main_profile''" "''Hello''"] r(1,2)
  have "\<exists>flag suffix ov tr0. (flag, ''main_profile'', suffix, ov) \<in> set person_page_map \<and>
         flag \<in> {EXPERIENCE} \<union> {BASIC_INFO} \<and>
         fst ((if ov then extract_overlay profile_site (''https://www.linkedin.com/in/'' @ ''bob'' @ suffix)
               else extract_page profile_site (''https://www.linkedin.com/in/'' @ ''bob'' @ suffix)) tr0) =
           Inr ''Hello''"
    by blast
  with r show ?thesis by blast
qed

text \<open>
  Claim C7: whatever flags are passed, \<open>scrape_person\<close> behaves as if \<open>BASIC_INFO\<close>
  were among them; its first navigation is to the main profile page, also when the
  call ends in an exception; when it returns, the main profile page is the first of
  \<open>pages_visited\<close> and \<open>main_profile\<close> is the first of \<open>sections_requested\<close>. The same
  holds for \<open>scrape_company\<close> with the flag \<open>ABOUT\<close>, the about page and \<open>about\<close>.
\<close>

theorem scrape_base_section_mandatory:
  "scrape_person st pmap who pflds = scrape_person st pmap who (pflds \<union> {BASIC_INFO})
   \<and> (\<exists>more. snd (scrape_person st pmap who pflds tr) =
         tr @ Goto (''https://www.linkedin.com/in/'' @ who @ ''/'') # more)
   \<and> (\<forall>res tr'. scrape_person st pmap who pflds tr = (Inr res, tr') \<longrightarrow>
         (\<exists>more. sections_requested res = ''main_profile'' # more) \<and>
         (\<exists>more. pages_visited res = (''https://www.linkedin.com/in/'' @ who @ ''/'') # more))
   \<and> scrape_company st cmap who cflds = scrape_company st cmap who (cflds \<union> {ABOUT})
   \<and> (\<exists>more. snd (scrape_company st cmap who cflds tr) =
         tr @ Goto (''https://www.linkedin.com/company/'' @ who @ ''/about/'') # more)
   \<and> (\<forall>res tr'. scrape_company st cmap who cflds tr = (Inr res, tr') \<longrightarrow>
         (\<exists>more. sections_requested res = ''about'' # more) \<and>
         (\<exists>more. pages_visited res =
            (''https://www.linkedin.com/company/'' @ who @ ''/about/'') # more))"
  using scrape_person_forced [of st pmap who pflds] scrape_person_session [of st pmap who pflds tr]
    scrape_person_first [of st pmap who pflds tr]
    scrape_company_forced [of st cmap who cflds] scrape_company_session [of st cmap who cflds tr]
    scrape_company_first [of st cmap who cflds tr]
  by blast

theorem scrape_base_section_mandatory_witness:
  "\<exists>res tr'. scrape_person profile_site example_person_section_map ''bob'' {EXPERIENCE} [] =
       (Inr res, tr')
     \<and> sections_requested res = [''main_profile'', ''experience'']
     \<and> (\<exists>more. pages_visited res = ''https://www.linkedin.com/in/bob/'' # more)"
proof -
  from scrape_bob [of example_person_section_map] obtain res tr' where
    r: "scrape_person profile_site example_person_section_map ''bob'' {EXPERIENCE} [] =
          (Inr res, tr')"
      "sections_requested res = ''main_profile'' #
          requested_names example_person_section_map person_members {BASIC_INFO, EXPERIENCE}"
    by blast
  have n: "requested_names example_person_section_map person_members {BASIC_INFO, EXPERIENCE} =
      [''experience'']"
    by (simp add: requested_names_def example_person_section_map_def person_members_def
        reverse_map_def List.map_filter_def)
  from scrape_base_section_mandatory
    [of profile_site example_person_section_map "''bob''" "{EXPERIENCE}" "[]"
        "[]" "{}"] r(1)
  have "\<exists>more. pages_visited res = (''https://www.linkedin.com/in/'' @ ''bob'' @ ''/'') # more"
    by blast
  then have "\<exists>more. pages_visited res = ''https://www.linkedin.com/in/bob/'' # more"
    by simp
  with r n show ?thesis by auto
qed

section \<open>Properties of the action methods\<close>

subsection \<open>The note of a connection request\<close>

lemma note_fill_simps:
  "note_fill nt (Goto u)" "note_fill nt (Sleep d)" "note_fill (Some n) (Fill (take 200 n))"
  by (simp_all add: note_fill_def)

lemma appends_connect_verify: "appends (connect_verify pg who nt purl) (note_fill nt)"
  unfolding connect_verify_def
  by (intro appends_intros note_fill_simps) (simp add: appends_return)

lemma appends_connect_fill_note:
  "appends (connect_fill_note pg who n purl) (note_fill (Some n))"
  unfolding connect_fill_note_def
  by (intro appends_intros note_fill_simps)

lemma appends_connect_invite: "appends (connect_invite pg who nt purl) (note_fill nt)"
proof (cases "truthy nt")
  case False
  then show ?thesis
    unfolding connect_invite_def
    by (simp add: appends_bind appends_answer appends_connect_verify)
next
  case True
  then obtain n where n: "nt = Some n" by (cases nt) auto
  show ?thesis
    using True unfolding connect_invite_def n
    by (auto intro!: appends_bind appends_answer appends_then appends_sleep
          appends_connect_fill_note appends_connect_verify appends_return
        simp: note_fill_simps split: option.splits)
qed

lemma appends_connect_with_person:
  "appends (connect_with_person pg who nt) (note_fill nt)"
proof -
  have "appends (if a then io_return x else if b then io_return y
          else if c then connect_invite pg who nt purl else io_return z) (note_fill nt)"
    for a b c x y z purl
    by (simp add: appends_return appends_connect_invite)
  then show ?thesis
    unfolding connect_with_person_def Let_def
    by (intro appends_intros note_fill_simps)
qed

lemma invite_fill_event:
  "snd (connect_with_person invite_modal_page ''bob'' (Some (replicate 250 CHR ''a'')) []) =
     [Goto ''https://www.linkedin.com/preload/custom-invite/?vanityName=bob'', Sleep 2, Sleep 2,
      Fill (take 200 (replicate 250 CHR ''a'')), Sleep 0.5, Sleep 2]"
  by (simp add: connect_with_person_def connect_invite_def connect_fill_note_def
      connect_verify_def invite_modal_page_def Let_def may_raise_simps answer_simps
      io_bind_return io_then_return io_then_emit sleep_def)
     (simp add: io_catch_def io_then_def io_bind_def emit_def io_return_def)

text \<open>
  Claim C10: whatever the page does, every text that \<open>connect_with_person\<close> types into
  a field is the first 200 characters of the note it was given (so it has at most 200
  characters, and a longer note is cut).
\<close>

theorem connect_note_truncated:
  assumes "Fill t \<in> set (snd (connect_with_person pg who nt tr))"
  shows "Fill t \<in> set tr \<or> (\<exists>n. nt = Some n \<and> t = take 200 n \<and> length t \<le> 200)"
proof -
  from appends_connect_with_person [of pg who nt]
  obtain more where m: "snd (connect_with_person pg who nt tr) = tr @ more"
      "list_all (note_fill nt) more"
    by (rule appendsD)
  show ?thesis
  proof (cases "Fill t \<in> set tr")
    case True
    then show ?thesis by simp
  next
    case False
    with assms m(1) have "Fill t \<in> set more" by simp
    with m(2) have "note_fill nt (Fill t)" by (simp add: list_all_iff)
    then show ?thesis by (cases nt) (simp_all add: note_fill_def)
  qed
qed

theorem connect_note_truncated_witness:
  "Fill (replicate 200 CHR ''a'') \<in>
     set (snd (connect_with_person invite_modal_page ''bob'' (Some (replicate 250 CHR ''a'')) []))
   \<and> replicate 200 CHR ''a'' = take 200 (replicate 250 CHR ''a'')
   \<and> length (replicate 200 CHR ''a'') \<le> 200"
proof -
  have h: "Fill (replicate 200 CHR ''a'') \<in>
     set (snd (connect_with_person invite_modal_page ''bob'' (Some (replicate 250 CHR ''a'')) []))"
    by (simp add: invite_fill_event)
  from connect_note_truncated [OF h] h show ?thesis by simp
qed

subsection \<open>Exceptions in action methods\<close>








subsection \<open>Every place where the page can raise\<close>




























end
